theory Spec2Isabelle
  imports Main "HOL-Library.Word"
begin

section \<open>The QuantumAi dataset registry (smartcontract/Quantum.sol)\<close>

text \<open>
  A shallow embedding of the Solidity contract \<^verbatim>\<open>QuantumAi\<close> and the four contracts it
  inherits from (\<^verbatim>\<open>QuantumAiStorage\<close>, \<^verbatim>\<open>QuantumAiPayments\<close>, \<^verbatim>\<open>QuantumAiDatasets\<close>,
  \<^verbatim>\<open>QuantumAiPurchase\<close>).

  \<^item> Solidity's unsigned integers are words of their width. The contract is compiled with
    \<^verbatim>\<open>pragma solidity ^0.8.24\<close> and has no \<^verbatim>\<open>unchecked\<close> block, so \<^verbatim>\<open>+\<close>, \<^verbatim>\<open>++\<close> and \<^verbatim>\<open>+=\<close>
    revert with \<^verbatim>\<open>Panic(0x11)\<close> when the result does not fit, while the explicit conversions
    \<^verbatim>\<open>uint48(...)\<close> and \<^verbatim>\<open>uint128(...)\<close> truncate.
  \<^item> A mapping is a total function (every key holds the zero value until it is written).
  \<^item> A call either reverts, and then the storage is the one before the call, or returns
    the new storage: the result type is \<open>error + storage\<close>.
  \<^item> The modifiers \<^verbatim>\<open>nonReentrant\<close> and \<^verbatim>\<open>onlyOwner\<close> come from OpenZeppelin's
    \<^verbatim>\<open>ReentrancyGuard\<close> and \<^verbatim>\<open>Ownable\<close>, which the contract imports; they are written out
    where the source applies them.
  \<^item> Events do not touch storage and are left out. Gas and the size limit of memory
    arrays are not modelled: a call returns whatever the cost of its loops.
\<close>

subsection \<open>Data\<close>

type_synonym address = "160 word"
type_synonym uint256 = "256 word"
type_synonym uint128 = "128 word"
type_synonym uint48 = "48 word"

record Dataset =
  datasetCID :: string
  analysisCID :: string
  uploader :: address
  isPublic :: bool
  isPrivate :: bool
  timestamp :: uint48
  views :: uint48
  downloads :: uint48
  isPaid :: bool
  priceInFIL :: uint128
  earnings :: uint128

record PaymentToken =
  tokenAddress :: address
  isAccepted :: bool
  symbol :: string

text \<open>The \<^verbatim>\<open>_status\<close> slot of OpenZeppelin's \<^verbatim>\<open>ReentrancyGuard\<close>.\<close>

datatype guard_status = NOT_ENTERED | ENTERED

text \<open>
  The storage of the deployed contract: the state variables of \<^verbatim>\<open>QuantumAiStorage\<close>, the
  \<^verbatim>\<open>_owner\<close> of \<^verbatim>\<open>Ownable\<close> and the \<^verbatim>\<open>_status\<close> of \<^verbatim>\<open>ReentrancyGuard\<close>.
\<close>

record storage =
  cidExists :: "string \<Rightarrow> bool"
  datasets :: "uint256 \<Rightarrow> Dataset"
  userUploads :: "address \<Rightarrow> uint256 list"
  hasAccess :: "uint256 \<Rightarrow> address \<Rightarrow> bool"
  publisherEarnings :: "address \<Rightarrow> uint128"
  totalPlatformEarnings :: uint128
  paymentTokens :: "address \<Rightarrow> PaymentToken"
  acceptedTokenByIndex :: "uint256 \<Rightarrow> address"
  acceptedTokenCount :: uint256
  datasetCount :: uint256
  owner :: address
  status :: guard_status

text \<open>
  The ways a call reverts: a failed \<^verbatim>\<open>require\<close> with its message, the custom errors of
  the two OpenZeppelin base contracts, the arithmetic and the array-index panic of the
  compiler, and a revert inside the external token call.
\<close>

datatype error =
    Require string
  | ReentrancyGuardReentrantCall
  | OwnableUnauthorizedAccount address
  | OwnableInvalidOwner address
  | Panic_overflow
  | Panic_index
  | TransferReverted

text \<open>
  What the external call \<^verbatim>\<open>IERC20(token).transferFrom(...)\<close> can do, seen from the
  contract: it reverts (also when the address holds no code or returns no data), or it
  returns a boolean. Before it returns, the token contract may call back into the
  registry any number of times, as any caller, and catch the reverts of those calls.
\<close>

datatype transfer_outcome = Reverts | Returns bool

datatype call =
    UploadDataset string string bool bool bool uint256
  | IncrementViews uint256
  | PurchaseDataset uint256 address token_behaviour
  | IncrementDownloads uint256
  | AddPaymentToken address string
  | TransferOwnership address
  | RenounceOwnership
and token_behaviour =
    Token "(address \<times> call) list" transfer_outcome

definition empty_dataset :: Dataset where
  "empty_dataset = \<lparr>datasetCID = [], analysisCID = [], uploader = 0, isPublic = False,
     isPrivate = False, timestamp = 0, views = 0, downloads = 0, isPaid = False,
     priceInFIL = 0, earnings = 0\<rparr>"

definition empty_token :: PaymentToken where
  "empty_token = \<lparr>tokenAddress = 0, isAccepted = False, symbol = []\<rparr>"

text \<open>The storage after deployment: \<^verbatim>\<open>constructor() Ownable(msg.sender) {}\<close>.\<close>

definition constructor :: "address \<Rightarrow> storage" where
  "constructor deployer = \<lparr>cidExists = (\<lambda>_. False), datasets = (\<lambda>_. empty_dataset),
     userUploads = (\<lambda>_. []), hasAccess = (\<lambda>_ _. False), publisherEarnings = (\<lambda>_. 0),
     totalPlatformEarnings = 0, paymentTokens = (\<lambda>_. empty_token),
     acceptedTokenByIndex = (\<lambda>_. 0), acceptedTokenCount = 0, datasetCount = 0,
     owner = deployer, status = NOT_ENTERED\<rparr>"

subsection \<open>Checked arithmetic\<close>

definition checked_add :: "'a::len word \<Rightarrow> 'a word \<Rightarrow> error + 'a word" where
  "checked_add a b = (if unat a + unat b < 2 ^ LENGTH('a) then Inr (a + b) else Inl Panic_overflow)"

definition checked_inc :: "'a::len word \<Rightarrow> error + 'a word" where
  "checked_inc a = checked_add a 1"

subsection \<open>Payment tokens (QuantumAiPayments)\<close>

definition addPaymentToken :: "storage \<Rightarrow> address \<Rightarrow> address \<Rightarrow> string \<Rightarrow> error + storage" where
  "addPaymentToken s sender token symb =
     (if owner s \<noteq> sender then Inl (OwnableUnauthorizedAccount sender)
      else if token = 0 then Inl (Require ''Zero'')
      else if isAccepted (paymentTokens s token) then Inl (Require ''Exists'')
      else case checked_inc (acceptedTokenCount s) of
             Inl e \<Rightarrow> Inl e
           | Inr n \<Rightarrow> Inr (s\<lparr>paymentTokens := (paymentTokens s)
                                 (token := \<lparr>tokenAddress = token, isAccepted = True, symbol = symb\<rparr>),
                             acceptedTokenByIndex := (acceptedTokenByIndex s)
                                 (acceptedTokenCount s := token),
                             acceptedTokenCount := n\<rparr>))"

definition isTokenAccepted :: "storage \<Rightarrow> address \<Rightarrow> bool" where
  "isTokenAccepted s token = isAccepted (paymentTokens s token)"

text \<open>The two mutators the contract inherits from \<^verbatim>\<open>Ownable\<close>.\<close>

definition transferOwnership :: "storage \<Rightarrow> address \<Rightarrow> address \<Rightarrow> error + storage" where
  "transferOwnership s sender newOwner =
     (if owner s \<noteq> sender then Inl (OwnableUnauthorizedAccount sender)
      else if newOwner = 0 then Inl (OwnableInvalidOwner 0)
      else Inr (s\<lparr>owner := newOwner\<rparr>))"

definition renounceOwnership :: "storage \<Rightarrow> address \<Rightarrow> error + storage" where
  "renounceOwnership s sender =
     (if owner s \<noteq> sender then Inl (OwnableUnauthorizedAccount sender)
      else Inr (s\<lparr>owner := 0\<rparr>))"

subsection \<open>Datasets (QuantumAiDatasets)\<close>

text \<open>The condition of the modifier \<^verbatim>\<open>canView\<close>.\<close>

definition canView :: "storage \<Rightarrow> address \<Rightarrow> uint256 \<Rightarrow> bool" where
  "canView s sender did =
     (let d = datasets s did in uploader d = sender \<or> (isPublic d \<and> \<not> isPrivate d))"

text \<open>
  \<^verbatim>\<open>uploadDataset\<close>, under \<^verbatim>\<open>nonReentrant\<close>: the guard reverts when the status is entered,
  sets it for the body and resets it afterwards. \<open>now\<close> is \<^verbatim>\<open>block.timestamp\<close>.
\<close>

definition uploadDataset ::
  "uint256 \<Rightarrow> storage \<Rightarrow> address \<Rightarrow> string \<Rightarrow> string \<Rightarrow> bool \<Rightarrow> bool \<Rightarrow> bool \<Rightarrow> uint256
     \<Rightarrow> error + storage" where
  "uploadDataset now s sender cid analysis pub priv paid price =
     (if status s = ENTERED then Inl ReentrancyGuardReentrantCall
      else if cidExists s cid then Inl (Require ''CID exists'')
      else if \<not> length cid > 0 then Inl (Require ''CID empty'')
      else if pub \<and> priv then Inl (Require ''Public+Private'')
      else if priv \<and> paid then Inl (Require ''Private not paid'')
      else if paid \<and> \<not> price > 0 then Inl (Require ''Price 0'')
      else case checked_inc (datasetCount s) of
             Inl e \<Rightarrow> Inl e
           | Inr n \<Rightarrow>
               let did = datasetCount s in
               Inr (s\<lparr>cidExists := (cidExists s)(cid := True),
                      datasetCount := n,
                      datasets := (datasets s)(did :=
                        \<lparr>datasetCID = cid, analysisCID = analysis, uploader = sender,
                         isPublic = pub, isPrivate = priv, timestamp = ucast now,
                         views = 0, downloads = 0, isPaid = paid,
                         priceInFIL = ucast price, earnings = 0\<rparr>),
                      userUploads := (userUploads s)(sender := userUploads s sender @ [did]),
                      status := NOT_ENTERED\<rparr>))"

definition getDataset :: "storage \<Rightarrow> address \<Rightarrow> uint256 \<Rightarrow> error + Dataset" where
  "getDataset s sender did =
     (if \<not> canView s sender did then Inl (Require ''No view'') else Inr (datasets s did))"

definition incrementViews :: "storage \<Rightarrow> address \<Rightarrow> uint256 \<Rightarrow> error + storage" where
  "incrementViews s sender did =
     (if \<not> canView s sender did then Inl (Require ''No view'')
      else case checked_inc (views (datasets s did)) of
             Inl e \<Rightarrow> Inl e
           | Inr v \<Rightarrow> Inr (s\<lparr>datasets := (datasets s)(did := (datasets s did)\<lparr>views := v\<rparr>)\<rparr>))"

definition totalDatasets :: "storage \<Rightarrow> uint256" where
  "totalDatasets s = datasetCount s"

subsection \<open>Purchase and access (QuantumAiPurchase)\<close>

text \<open>The condition of the modifier \<^verbatim>\<open>canDownload\<close>.\<close>

definition canDownload :: "storage \<Rightarrow> address \<Rightarrow> uint256 \<Rightarrow> bool" where
  "canDownload s sender did =
     (let d = datasets s did in uploader d = sender \<or> \<not> isPaid d \<or> hasAccess s did sender)"

definition incrementDownloads :: "storage \<Rightarrow> address \<Rightarrow> uint256 \<Rightarrow> error + storage" where
  "incrementDownloads s sender did =
     (if \<not> canDownload s sender did then Inl (Require ''No download'')
      else case checked_inc (downloads (datasets s did)) of
             Inl e \<Rightarrow> Inl e
           | Inr v \<Rightarrow> Inr (s\<lparr>datasets := (datasets s)(did := (datasets s did)\<lparr>downloads := v\<rparr>)\<rparr>))"

text \<open>The five \<^verbatim>\<open>require\<close>s of \<^verbatim>\<open>purchaseDataset\<close>, in the source's order.\<close>

definition purchase_requires :: "storage \<Rightarrow> address \<Rightarrow> uint256 \<Rightarrow> address \<Rightarrow> error option" where
  "purchase_requires s sender did token =
     (let d = datasets s did in
      if \<not> (isPublic d \<and> \<not> isPrivate d) then Some (Require ''Not public'')
      else if \<not> isPaid d then Some (Require ''Free'')
      else if hasAccess s did sender then Some (Require ''Already'')
      else if uploader d = sender then Some (Require ''Own'')
      else if \<not> isAccepted (paymentTokens s token) then Some (Require ''Token'')
      else None)"

text \<open>
  The four writes of \<^verbatim>\<open>purchaseDataset\<close> after the external call. \<^verbatim>\<open>d\<close> is a storage
  pointer, so each line reads the record as it is then.
\<close>

definition purchase_writes :: "storage \<Rightarrow> address \<Rightarrow> uint256 \<Rightarrow> error + storage" where
  "purchase_writes s sender did =
     (let s1 = s\<lparr>hasAccess := (hasAccess s)(did := (hasAccess s did)(sender := True))\<rparr>;
          d = datasets s1 did in
      case checked_add (earnings d) (priceInFIL d) of
        Inl e \<Rightarrow> Inl e
      | Inr e1 \<Rightarrow>
          let s2 = s1\<lparr>datasets := (datasets s1)(did := d\<lparr>earnings := e1\<rparr>)\<rparr>;
              d2 = datasets s2 did in
          case checked_add (publisherEarnings s2 (uploader d2)) (priceInFIL d2) of
            Inl e \<Rightarrow> Inl e
          | Inr e2 \<Rightarrow>
              let s3 = s2\<lparr>publisherEarnings := (publisherEarnings s2)(uploader d2 := e2)\<rparr>;
                  d3 = datasets s3 did in
              case checked_add (totalPlatformEarnings s3) (priceInFIL d3) of
                Inl e \<Rightarrow> Inl e
              | Inr e3 \<Rightarrow> Inr (s3\<lparr>totalPlatformEarnings := e3\<rparr>))"

text \<open>
  \<^verbatim>\<open>purchaseDataset\<close> under \<^verbatim>\<open>nonReentrant\<close>. The value \<^verbatim>\<open>transferFrom\<close> returns is not
  read by the source: the writes follow whenever the external call does not revert.
  \<open>exec\<close> dispatches an external call to the contract; \<open>callbacks\<close> runs the calls the
  token makes during the transfer, a reverted one leaving the storage as it was.
\<close>

fun purchaseDataset ::
  "uint256 \<Rightarrow> storage \<Rightarrow> address \<Rightarrow> uint256 \<Rightarrow> address \<Rightarrow> token_behaviour \<Rightarrow> error + storage"
and exec :: "uint256 \<Rightarrow> storage \<Rightarrow> address \<Rightarrow> call \<Rightarrow> error + storage"
and callbacks :: "uint256 \<Rightarrow> storage \<Rightarrow> (address \<times> call) list \<Rightarrow> storage" where
  "purchaseDataset now s sender did token (Token cbs outcome) =
     (if status s = ENTERED then Inl ReentrancyGuardReentrantCall
      else let s1 = s\<lparr>status := ENTERED\<rparr> in
        case purchase_requires s1 sender did token of
          Some e \<Rightarrow> Inl e
        | None \<Rightarrow>
            (case outcome of
               Reverts \<Rightarrow> Inl TransferReverted
             | Returns ok \<Rightarrow>
                 (case purchase_writes (callbacks now s1 cbs) sender did of
                    Inl e \<Rightarrow> Inl e
                  | Inr s2 \<Rightarrow> Inr (s2\<lparr>status := NOT_ENTERED\<rparr>))))"
| "exec now s sender (UploadDataset cid analysis pub priv paid price) =
     uploadDataset now s sender cid analysis pub priv paid price"
| "exec now s sender (IncrementViews did) = incrementViews s sender did"
| "exec now s sender (PurchaseDataset did token beh) = purchaseDataset now s sender did token beh"
| "exec now s sender (IncrementDownloads did) = incrementDownloads s sender did"
| "exec now s sender (AddPaymentToken token symb) = addPaymentToken s sender token symb"
| "exec now s sender (TransferOwnership newOwner) = transferOwnership s sender newOwner"
| "exec now s sender RenounceOwnership = renounceOwnership s sender"
| "callbacks now s [] = s"
| "callbacks now s ((a, c) # cs) =
     callbacks now (case exec now s a c of Inl e \<Rightarrow> s | Inr s' \<Rightarrow> s') cs"

subsection \<open>Queries (QuantumAi)\<close>

text \<open>The test both loops of \<^verbatim>\<open>getPublicDatasetPage\<close> apply to a record.\<close>

definition listed :: "Dataset \<Rightarrow> bool" where
  "listed d = (isPublic d \<and> \<not> isPrivate d)"

text \<open>
  The first loop, from index \<open>i\<close> with the running total \<open>tot\<close>. Neither \<^verbatim>\<open>i++\<close> nor
  \<^verbatim>\<open>total++\<close> can overflow: \<open>i\<close> is below \<open>datasetCount\<close> and the total is at most \<open>i\<close>.
\<close>

function count_listed :: "storage \<Rightarrow> uint256 \<Rightarrow> uint256 \<Rightarrow> uint256" where
  "count_listed s i tot =
     (if i < datasetCount s
      then count_listed s (i + 1) (if listed (datasets s i) then tot + 1 else tot)
      else tot)"
  by pat_completeness auto
termination
  by (relation "measure (\<lambda>(s, i, tot). unat (datasetCount s) - unat i)")
     (simp, clarsimp, unat_arith)

declare count_listed.simps [simp del]

text \<open>
  The second loop, from index \<open>i\<close>, with the page \<open>p\<close> (a memory array of fixed length),
  the write position \<open>idx\<close> and the \<open>cursor\<close> over the listed records. A write beyond the
  length of \<open>p\<close> is the index panic of the compiler.
\<close>

function fill_page ::
  "storage \<Rightarrow> uint256 \<Rightarrow> uint256 \<Rightarrow> uint256 \<Rightarrow> Dataset list \<Rightarrow> uint256 \<Rightarrow> uint256
     \<Rightarrow> error + Dataset list" where
  "fill_page s start stop i p idx cursor =
     (if i < datasetCount s then
        if listed (datasets s i) then
          let hit = (start \<le> cursor \<and> cursor < stop) in
          if hit \<and> \<not> unat idx < length p then Inl Panic_index
          else
            let p' = (if hit then p[unat idx := datasets s i] else p);
                idx' = (if hit then idx + 1 else idx);
                cursor' = cursor + 1
            in if stop \<le> cursor' then Inr p'
               else fill_page s start stop (i + 1) p' idx' cursor'
        else fill_page s start stop (i + 1) p idx cursor
      else Inr p)"
  by pat_completeness auto
termination
  by (relation "measure (\<lambda>(s, start, stop, i, p, idx, cursor). unat (datasetCount s) - unat i)")
     (simp, (clarsimp, unat_arith)+)

declare fill_page.simps [simp del]

definition getPublicDatasetPage ::
  "storage \<Rightarrow> uint256 \<Rightarrow> uint256 \<Rightarrow> error + (Dataset list \<times> uint256)" where
  "getPublicDatasetPage s start limit =
     (let tot = count_listed s 0 0 in
      if tot \<le> start then Inr ([], 0)
      else case checked_add start limit of
             Inl e \<Rightarrow> Inl e
           | Inr stop0 \<Rightarrow>
               let stop = (if tot < stop0 then tot else stop0) in
               case fill_page s start stop 0
                      (replicate (unat (stop - start)) empty_dataset) 0 0 of
                 Inl e \<Rightarrow> Inl e
               | Inr p \<Rightarrow> Inr (p, stop))"

subsection \<open>Transactions\<close>

text \<open>
  A transaction is a block timestamp, a sender and a call. It commits the storage the
  call returns, or leaves the storage as it was when the call reverts.
\<close>

type_synonym tx = "uint256 \<times> address \<times> call"

definition transact :: "storage \<Rightarrow> tx \<Rightarrow> storage" where
  "transact s x =
     (case x of (now, sender, c) \<Rightarrow>
        (case exec now s sender c of Inl e \<Rightarrow> s | Inr s' \<Rightarrow> s'))"

definition run :: "storage \<Rightarrow> tx list \<Rightarrow> storage" where
  "run s txs = foldl transact s txs"

subsection \<open>Notions used to state the properties\<close>

text \<open>The ids assigned so far, ascending: \<open>0, \<dots>, datasetCount - 1\<close>, and their records.\<close>

definition ids :: "storage \<Rightarrow> uint256 list" where
  "ids s = map word_of_nat [0..<unat (datasetCount s)]"

definition all_datasets :: "storage \<Rightarrow> Dataset list" where
  "all_datasets s = map (datasets s) (ids s)"

text \<open>The sum, as a natural number, of the earnings of the records uploaded by \<open>u\<close>.\<close>

definition owned_earnings :: "storage \<Rightarrow> address \<Rightarrow> nat" where
  "owned_earnings s u =
     sum_list (map (\<lambda>d. unat (earnings d)) (filter (\<lambda>d. uploader d = u) (all_datasets s)))"

text \<open>The listed records (public and not private), ascending by id.\<close>

definition listed_datasets :: "storage \<Rightarrow> Dataset list" where
  "listed_datasets s = filter listed (all_datasets s)"

text \<open>The listed records at ids from \<open>i\<close> on: what the loops of the page query have left to visit.\<close>

definition listed_from :: "storage \<Rightarrow> uint256 \<Rightarrow> Dataset list" where
  "listed_from s i =
     filter listed (map (datasets s) (map word_of_nat [unat i..<unat (datasetCount s)]))"

text \<open>
  The records the second loop still writes when its cursor is \<open>c\<close> and the listed records
  ahead are \<open>rest\<close>, and the page once they are written from position \<open>k\<close> on.
\<close>

definition collected :: "nat \<Rightarrow> nat \<Rightarrow> nat \<Rightarrow> Dataset list \<Rightarrow> Dataset list" where
  "collected st en c rest = take (en - max st c) (drop (st - c) rest)"

definition filled :: "Dataset list \<Rightarrow> nat \<Rightarrow> Dataset list \<Rightarrow> Dataset list" where
  "filled p k coll = take k p @ coll @ drop (k + length coll) p"

text \<open>A record with its two counters blanked: what no counter increment can change.\<close>

definition static :: "Dataset \<Rightarrow> Dataset" where
  "static d = d\<lparr>views := 0, downloads := 0\<rparr>"

text \<open>
  \<open>counters_only s m\<close>: the storage \<open>m\<close> differs from \<open>s\<close> at most in view and download
  counters, in the token allowlist and in the owner.
\<close>

definition counters_only :: "storage \<Rightarrow> storage \<Rightarrow> bool" where
  "counters_only s m =
     (cidExists m = cidExists s \<and> userUploads m = userUploads s \<and>
      hasAccess m = hasAccess s \<and> publisherEarnings m = publisherEarnings s \<and>
      totalPlatformEarnings m = totalPlatformEarnings s \<and>
      datasetCount m = datasetCount s \<and> status m = status s \<and>
      (\<forall>j. static (datasets m j) = static (datasets s j)))"

text \<open>
  The invariant of the storage between transactions: the guard is not entered, a record
  at an id that was never assigned is blank apart from its counters, and the earnings of
  every publisher are the sum of the earnings of their records.
\<close>

definition consistent :: "storage \<Rightarrow> bool" where
  "consistent s =
     (status s = NOT_ENTERED \<and>
      (\<forall>j. datasetCount s \<le> j \<longrightarrow> static (datasets s j) = empty_dataset) \<and>
      (\<forall>u. unat (publisherEarnings s u) = owned_earnings s u))"

subsection \<open>States used as examples\<close>

text \<open>A registry whose record 0 has both counters at the largest 48-bit value.\<close>

definition s_full :: storage where
  "s_full = (constructor 1)\<lparr>datasets := (\<lambda>_. empty_dataset)
     (0 := empty_dataset\<lparr>uploader := 5, views := 281474976710655,
                          downloads := 281474976710655\<rparr>)\<rparr>"

text \<open>
  A registry deployed by account 1, who allowlists token 7; account 2 then uploads a
  public paid dataset at price 10, which gets id 0. In \<open>s_sold\<close> account 3 has bought it.
\<close>

definition market_txs :: "tx list" where
  "market_txs = [(0, 1, AddPaymentToken 7 ''X''),
                 (100, 2, UploadDataset ''A'' ''B'' True False True 10)]"

definition s_market :: storage where
  "s_market = run (constructor 1) market_txs"

definition s_sold :: storage where
  "s_sold = transact s_market (200, 3, PurchaseDataset 0 7 (Token [] (Returns True)))"

text \<open>
  A registry with three uploads: a public free dataset, a private one and a public paid
  one, so that the listed records are those of ids 0 and 2.
\<close>

definition three_txs :: "tx list" where
  "three_txs = [(10, 2, UploadDataset ''P'' [] True False False 0),
                (20, 2, UploadDataset ''Q'' [] False True False 0),
                (30, 5, UploadDataset ''R'' [] True False True 7)]"

definition s_three :: storage where
  "s_three = run (constructor 1) three_txs"

text \<open>A fresh registry in which some account has called \<^verbatim>\<open>incrementDownloads(5)\<close>.\<close>

definition s_touched :: storage where
  "s_touched = run (constructor 1) [(0, 9, IncrementDownloads 5)]"

text \<open>
  The example market after account 4 has uploaded a second dataset, public and free,
  which gets id 1. In \<open>s_pair_sold\<close> account 3 has bought dataset 0 with a token that calls
  \<^verbatim>\<open>incrementViews(1)\<close> during the transfer.
\<close>

definition pair_txs :: "tx list" where
  "pair_txs = market_txs @ [(150, 4, UploadDataset ''C'' [] True False False 0)]"

definition s_pair :: storage where
  "s_pair = run (constructor 1) pair_txs"

definition s_pair_sold :: storage where
  "s_pair_sold = transact s_pair
     (200, 3, PurchaseDataset 0 7 (Token [(7, IncrementViews 1)] (Returns True)))"

section \<open>Properties\<close>

subsection \<open>Checked arithmetic\<close>

lemma checked_add_Inr:
  "checked_add a b = Inr c \<Longrightarrow> c = a + b \<and> unat c = unat a + unat b"
  by (auto simp: checked_add_def unat_word_ariths split: if_splits)

lemma checked_inc_Inr: "checked_inc a = Inr v \<Longrightarrow> v = a + 1 \<and> unat v = Suc (unat a)"
  by (auto simp: checked_inc_def dest: checked_add_Inr)

lemma unat_minus_1_word: "unat (- 1 :: 'a::len word) = 2 ^ LENGTH('a) - 1"
  by (simp add: unsigned_minus_1_eq_mask mask_eq_exp_minus_1)

lemma checked_inc_max: "checked_inc (- 1 :: 'a::len word) = Inl Panic_overflow"
  by (simp add: checked_inc_def checked_add_def unat_minus_1_word)

lemma checked_inc_eq:
  "checked_inc (a :: 'a::len word) = (if a = - 1 then Inl Panic_overflow else Inr (a + 1))"
proof (cases "a = - 1")
  case True
  then show ?thesis by (simp add: checked_inc_max)
next
  case False
  have "unat a < 2 ^ LENGTH('a)" by (rule unsigned_less)
  moreover have "unat a \<noteq> 2 ^ LENGTH('a) - 1"
  proof
    assume "unat a = 2 ^ LENGTH('a) - 1"
    then have "unat a = unat (- 1 :: 'a word)" by (simp add: unat_minus_1_word)
    then have "a = - 1" by (simp only: word_unat_eq_iff)
    with False show False by simp
  qed
  ultimately have "unat a + 1 < 2 ^ LENGTH('a)" by arith
  with False show ?thesis by (simp add: checked_inc_def checked_add_def)
qed

subsection \<open>Bounded counters\<close>

text \<open>
  Claim C9. When the views counter of a record holds the largest value of its width
  (\<open>- 1\<close> in \<open>uint48\<close>, that is \<open>2 ^ 48 - 1\<close>), \<open>incrementViews\<close> on it reverts for every
  caller: with the arithmetic panic when the caller passes \<^verbatim>\<open>canView\<close>, with
  \<^verbatim>\<open>"No view"\<close> otherwise; the transaction leaves the storage, and so the counter, as it
  was. The same holds for the downloads counter and \<open>incrementDownloads\<close>. The counter
  never wraps to a smaller value.
\<close>

theorem counters_reject_overflow:
  "(views (datasets s did) = - 1 \<longrightarrow>
      incrementViews s sender did =
        (if canView s sender did then Inl Panic_overflow else Inl (Require ''No view'')) \<and>
      transact s (now, sender, IncrementViews did) = s) \<and>
   (downloads (datasets s did) = - 1 \<longrightarrow>
      incrementDownloads s sender did =
        (if canDownload s sender did then Inl Panic_overflow
         else Inl (Require ''No download'')) \<and>
      transact s (now, sender, IncrementDownloads did) = s)"
  by (simp add: incrementViews_def incrementDownloads_def transact_def checked_inc_max)

theorem counters_reject_overflow_witness:
  "views (datasets s_full 0) = 2 ^ 48 - 1 \<and> downloads (datasets s_full 0) = 2 ^ 48 - 1 \<and>
   incrementViews s_full 5 0 = Inl Panic_overflow \<and>
   incrementDownloads s_full 5 0 = Inl Panic_overflow \<and>
   transact s_full (0, 5, IncrementViews 0) = s_full \<and>
   transact s_full (0, 5, IncrementDownloads 0) = s_full"
  using counters_reject_overflow [of s_full 0 5 0]
  by (simp add: s_full_def constructor_def canView_def canDownload_def)

subsection \<open>The assigned ids\<close>

lemma unat_of_nat_below: "i < unat (n::'a::len word) \<Longrightarrow> unat (word_of_nat i :: 'a word) = i"
  by (rule le_unat_uoi [of _ n]) simp

lemma set_ids: "set (ids s) = {j. j < datasetCount s}"
proof (rule set_eqI)
  fix j
  show "j \<in> set (ids s) \<longleftrightarrow> j \<in> {j. j < datasetCount s}"
  proof
    assume "j \<in> set (ids s)"
    then obtain i where "i < unat (datasetCount s)" and "j = word_of_nat i"
      by (auto simp: ids_def)
    then show "j \<in> {j. j < datasetCount s}"
      by (simp add: word_less_nat_alt unat_of_nat_below)
  next
    assume "j \<in> {j. j < datasetCount s}"
    then have "unat j < unat (datasetCount s)" by (simp add: word_less_nat_alt)
    then have "word_of_nat (unat j) \<in> set (ids s)" unfolding ids_def by (simp del: of_nat_unat)
    then show "j \<in> set (ids s)" by simp
  qed
qed

lemma distinct_ids: "distinct (ids s)"
  unfolding ids_def
proof (rule distinct_map [THEN iffD2], intro conjI inj_onI)
  show "distinct [0..<unat (datasetCount s)]" by simp
next
  fix x y
  assume "x \<in> set [0..<unat (datasetCount s)]" "y \<in> set [0..<unat (datasetCount s)]"
    and eq: "(word_of_nat x :: uint256) = word_of_nat y"
  have ux: "unat (word_of_nat x :: uint256) = x"
    using \<open>x \<in> set [0..<unat (datasetCount s)]\<close> by (simp add: unat_of_nat_below)
  have uy: "unat (word_of_nat y :: uint256) = y"
    using \<open>y \<in> set [0..<unat (datasetCount s)]\<close> by (simp add: unat_of_nat_below)
  have "unat (word_of_nat x :: uint256) = unat (word_of_nat y :: uint256)"
    using eq by (rule arg_cong)
  then show "x = y" unfolding ux uy .
qed

lemma ids_Suc:
  "unat (datasetCount s') = Suc (unat (datasetCount s)) \<Longrightarrow> ids s' = ids s @ [datasetCount s]"
  by (simp add: ids_def)

subsection \<open>Calls that only move counters\<close>

lemma counters_only_refl: "counters_only s s"
  by (simp add: counters_only_def)

lemma counters_only_trans: "counters_only s m \<Longrightarrow> counters_only m n \<Longrightarrow> counters_only s n"
  by (simp add: counters_only_def)

lemma incrementViews_counters: "incrementViews s a did = Inr s' \<Longrightarrow> counters_only s s'"
  by (auto simp: incrementViews_def counters_only_def static_def split: if_splits sum.splits)

lemma incrementDownloads_counters: "incrementDownloads s a did = Inr s' \<Longrightarrow> counters_only s s'"
  by (auto simp: incrementDownloads_def counters_only_def static_def split: if_splits sum.splits)

lemma addPaymentToken_counters: "addPaymentToken s a token symb = Inr s' \<Longrightarrow> counters_only s s'"
  by (auto simp: addPaymentToken_def counters_only_def split: if_splits sum.splits)

lemma transferOwnership_counters: "transferOwnership s a newOwner = Inr s' \<Longrightarrow> counters_only s s'"
  by (auto simp: transferOwnership_def counters_only_def split: if_splits)

lemma renounceOwnership_counters: "renounceOwnership s a = Inr s' \<Longrightarrow> counters_only s s'"
  by (auto simp: renounceOwnership_def counters_only_def split: if_splits)

lemma static_eqD:
  "static d = static d' \<Longrightarrow>
   datasetCID d = datasetCID d' \<and> analysisCID d = analysisCID d' \<and> uploader d = uploader d' \<and>
   isPublic d = isPublic d' \<and> isPrivate d = isPrivate d' \<and> timestamp d = timestamp d' \<and>
   isPaid d = isPaid d' \<and> priceInFIL d = priceInFIL d' \<and> earnings d = earnings d'"
  by (cases d, cases d') (simp add: static_def)

lemma static_emptyD:
  "static d = empty_dataset \<Longrightarrow>
   uploader d = 0 \<and> \<not> isPublic d \<and> \<not> isPrivate d \<and> \<not> isPaid d \<and> priceInFIL d = 0 \<and>
   earnings d = 0 \<and> datasetCID d = [] \<and> analysisCID d = [] \<and> timestamp d = 0"
  by (cases d) (simp add: static_def empty_dataset_def)

subsection \<open>Calls while the guard is entered\<close>

lemma uploadDataset_entered:
  "status s = ENTERED \<Longrightarrow>
   uploadDataset now s a cid analysis pub priv paid price = Inl ReentrancyGuardReentrantCall"
  by (simp add: uploadDataset_def)

lemma purchaseDataset_entered:
  "status s = ENTERED \<Longrightarrow> purchaseDataset now s a did token beh = Inl ReentrancyGuardReentrantCall"
  by (cases beh) simp

lemma exec_entered:
  "status s = ENTERED \<Longrightarrow> exec now s a c = Inr s' \<Longrightarrow> counters_only s s'"
  by (cases c)
     (auto simp: uploadDataset_entered purchaseDataset_entered
           dest: incrementViews_counters incrementDownloads_counters addPaymentToken_counters
                 transferOwnership_counters renounceOwnership_counters)

lemma callbacks_entered: "status s = ENTERED \<Longrightarrow> counters_only s (callbacks now s cbs)"
proof (induction cbs arbitrary: s)
  case Nil
  then show ?case by (simp add: counters_only_refl)
next
  case (Cons x cbs)
  obtain a c where x: "x = (a, c)" by (cases x)
  show ?case
  proof (cases "exec now s a c")
    case (Inl e)
    with Cons x show ?thesis by simp
  next
    case (Inr s1)
    from Cons.prems Inr have 1: "counters_only s s1" by (rule exec_entered)
    then have "status s1 = ENTERED" using Cons.prems by (simp add: counters_only_def)
    then have "counters_only s1 (callbacks now s1 cbs)" by (rule Cons.IH)
    with 1 have "counters_only s (callbacks now s1 cbs)" by (rule counters_only_trans)
    with Inr x show ?thesis by simp
  qed
qed

subsection \<open>What a successful call has done\<close>

lemma uploadDataset_Inr:
  assumes "uploadDataset now s a cid analysis pub priv paid price = Inr s'"
  shows "s' = s\<lparr>cidExists := (cidExists s)(cid := True),
                datasetCount := datasetCount s + 1,
                datasets := (datasets s)(datasetCount s :=
                  \<lparr>datasetCID = cid, analysisCID = analysis, uploader = a,
                   isPublic = pub, isPrivate = priv, timestamp = ucast now,
                   views = 0, downloads = 0, isPaid = paid,
                   priceInFIL = ucast price, earnings = 0\<rparr>),
                userUploads := (userUploads s)(a := userUploads s a @ [datasetCount s]),
                status := NOT_ENTERED\<rparr>"
    and "unat (datasetCount s + 1) = Suc (unat (datasetCount s))"
    and "status s = NOT_ENTERED"
  using assms
  by (auto simp: uploadDataset_def Let_def dest!: checked_inc_Inr
           split: if_splits sum.splits intro: guard_status.exhaust)

lemma purchase_requires_None:
  "purchase_requires s a did token = None \<Longrightarrow>
   isPublic (datasets s did) \<and> \<not> isPrivate (datasets s did) \<and> isPaid (datasets s did) \<and>
   \<not> hasAccess s did a \<and> uploader (datasets s did) \<noteq> a \<and> isAccepted (paymentTokens s token)"
  by (simp add: purchase_requires_def Let_def split: if_splits)

lemma purchase_writes_Inr:
  assumes "purchase_writes m a did = Inr s2"
  shows "s2 = m\<lparr>hasAccess := (hasAccess m)(did := (hasAccess m did)(a := True)),
                datasets := (datasets m)(did := (datasets m did)
                   \<lparr>earnings := earnings (datasets m did) + priceInFIL (datasets m did)\<rparr>),
                publisherEarnings := (publisherEarnings m)(uploader (datasets m did) :=
                   publisherEarnings m (uploader (datasets m did)) + priceInFIL (datasets m did)),
                totalPlatformEarnings := totalPlatformEarnings m + priceInFIL (datasets m did)\<rparr>"
    and "unat (earnings (datasets m did)) + unat (priceInFIL (datasets m did)) < 2 ^ 128"
    and "unat (publisherEarnings m (uploader (datasets m did))) + unat (priceInFIL (datasets m did)) < 2 ^ 128"
  using assms
  by (auto simp: purchase_writes_def checked_add_def Let_def split: if_splits sum.splits)

lemma purchaseDataset_Inr:
  assumes "purchaseDataset now s a did token (Token cbs outcome) = Inr s'"
  shows "status s = NOT_ENTERED"
    and "purchase_requires s a did token = None"
    and "outcome \<noteq> Reverts"
    and "\<exists>s2. purchase_writes (callbacks now (s\<lparr>status := ENTERED\<rparr>) cbs) a did = Inr s2 \<and>
              s' = s2\<lparr>status := NOT_ENTERED\<rparr>"
  using assms
  by (auto simp: purchase_requires_def Let_def
           split: if_splits option.splits transfer_outcome.splits sum.splits
           intro: guard_status.exhaust)

lemma purchaseDataset_parts:
  assumes "purchaseDataset now s a did token (Token cbs outcome) = Inr s'"
  obtains m s2 where "counters_only (s\<lparr>status := ENTERED\<rparr>) m"
    and "m = callbacks now (s\<lparr>status := ENTERED\<rparr>) cbs"
    and "purchase_requires s a did token = None"
    and "purchase_writes m a did = Inr s2"
    and "s' = s2\<lparr>status := NOT_ENTERED\<rparr>"
    and "status s = NOT_ENTERED"
proof -
  from purchaseDataset_Inr(4) [OF assms] obtain s2
    where "purchase_writes (callbacks now (s\<lparr>status := ENTERED\<rparr>) cbs) a did = Inr s2"
      and "s' = s2\<lparr>status := NOT_ENTERED\<rparr>" by blast
  moreover have "counters_only (s\<lparr>status := ENTERED\<rparr>) (callbacks now (s\<lparr>status := ENTERED\<rparr>) cbs)"
    by (rule callbacks_entered) simp
  ultimately show thesis
    using purchaseDataset_Inr(1,2) [OF assms] that by blast
qed

lemma exec_Inr_kinds:
  assumes "exec now s a c = Inr s'"
  shows "counters_only s s' \<or>
         (\<exists>cid analysis pub priv paid price.
            uploadDataset now s a cid analysis pub priv paid price = Inr s') \<or>
         (\<exists>did token cbs outcome.
            purchaseDataset now s a did token (Token cbs outcome) = Inr s')"
proof (cases c)
  case (UploadDataset cid analysis pub priv paid price)
  with assms show ?thesis by auto
next
  case (IncrementViews did)
  with assms show ?thesis by (simp add: incrementViews_counters)
next
  case (PurchaseDataset did token beh)
  with assms show ?thesis by (cases beh) auto
next
  case (IncrementDownloads did)
  with assms show ?thesis by (simp add: incrementDownloads_counters)
next
  case (AddPaymentToken token symb)
  with assms show ?thesis by (simp add: addPaymentToken_counters)
next
  case (TransferOwnership newOwner)
  with assms show ?thesis by (simp add: transferOwnership_counters)
next
  case RenounceOwnership
  with assms show ?thesis by (simp add: renounceOwnership_counters)
qed

lemma exec_Inr_cases:
  assumes "exec now s a c = Inr s'"
  obtains (counters) "counters_only s s'"
  | (upload) cid analysis pub priv paid price
      where "uploadDataset now s a cid analysis pub priv paid price = Inr s'"
  | (purchase) did token cbs outcome
      where "purchaseDataset now s a did token (Token cbs outcome) = Inr s'"
  using exec_Inr_kinds [OF assms] by blast

subsection \<open>The invariant\<close>

lemma owned_earnings_sum:
  "owned_earnings s u =
     (\<Sum>j\<leftarrow>ids s. if uploader (datasets s j) = u then unat (earnings (datasets s j)) else 0)"
  by (simp add: owned_earnings_def all_datasets_def filter_map sum_list_map_filter' comp_def)

lemma sum_list_cong_set: "(\<And>x. x \<in> set xs \<Longrightarrow> f x = g x) \<Longrightarrow> sum_list (map f xs) = sum_list (map g xs)"
  by (induction xs) auto

lemma sum_list_bump:
  "distinct xs \<Longrightarrow> x \<in> set xs \<Longrightarrow>
   (\<Sum>y\<leftarrow>xs. if y = x then f y + (c::nat) else f y) = (\<Sum>y\<leftarrow>xs. f y) + c"
proof (induction xs)
  case Nil
  then show ?case by simp
next
  case (Cons z zs)
  show ?case
  proof (cases "z = x")
    case True
    with Cons.prems have "x \<notin> set zs" by simp
    then have "(\<Sum>y\<leftarrow>zs. if y = x then f y + c else f y) = (\<Sum>y\<leftarrow>zs. f y)"
      by (intro sum_list_cong_set) auto
    with True show ?thesis by simp
  next
    case False
    with Cons show ?thesis by simp
  qed
qed

lemma counters_only_consistent:
  assumes "counters_only s s'" and "consistent s"
  shows "consistent s'"
proof -
  from assms(1) have eq: "datasetCount s' = datasetCount s" "status s' = status s"
    "publisherEarnings s' = publisherEarnings s"
    and st: "\<And>j. static (datasets s' j) = static (datasets s j)"
    by (simp_all add: counters_only_def)
  have "ids s' = ids s" by (simp add: ids_def eq)
  moreover have "uploader (datasets s' j) = uploader (datasets s j)"
    and "earnings (datasets s' j) = earnings (datasets s j)" for j
    using static_eqD [OF st, of j] by simp_all
  ultimately have "owned_earnings s' u = owned_earnings s u" for u
    by (simp add: owned_earnings_sum cong: if_cong)
  with assms(2) eq st show ?thesis by (simp add: consistent_def)
qed

lemma uploadDataset_consistent:
  assumes up: "uploadDataset now s a cid analysis pub priv paid price = Inr s'"
    and c: "consistent s"
  shows "consistent s'"
proof -
  note s' = uploadDataset_Inr(1) [OF up]
  have n: "unat (datasetCount s') = Suc (unat (datasetCount s))"
    using uploadDataset_Inr(2) [OF up] by (simp add: s')
  have st: "status s' = NOT_ENTERED" by (simp add: s')
  have pe: "publisherEarnings s' = publisherEarnings s" by (simp add: s')
  have old: "datasets s' j = datasets s j" if "j \<noteq> datasetCount s" for j
    using that by (simp add: s')
  have new: "earnings (datasets s' (datasetCount s)) = 0" by (simp add: s')
  have blank: "static (datasets s' j) = empty_dataset" if "datasetCount s' \<le> j" for j
  proof -
    from that n have "unat (datasetCount s) < unat j" by (simp add: word_le_nat_alt)
    then have "datasetCount s \<le> j" "j \<noteq> datasetCount s"
      by (auto simp: word_le_nat_alt)
    with c old show ?thesis by (simp add: consistent_def)
  qed
  have "owned_earnings s' u = owned_earnings s u" for u
  proof -
    have "(\<Sum>j\<leftarrow>ids s. if uploader (datasets s' j) = u then unat (earnings (datasets s' j)) else 0)
        = (\<Sum>j\<leftarrow>ids s. if uploader (datasets s j) = u then unat (earnings (datasets s j)) else 0)"
      by (rule sum_list_cong_set) (auto simp: set_ids old)
    then show ?thesis by (simp add: owned_earnings_sum ids_Suc [OF n] new)
  qed
  with c st pe blank show ?thesis by (simp add: consistent_def)
qed

lemma purchase_consistent:
  assumes m: "counters_only (s\<lparr>status := ENTERED\<rparr>) m"
    and req: "purchase_requires s a did token = None"
    and w: "purchase_writes m a did = Inr s2"
    and c: "consistent s"
  shows "consistent (s2\<lparr>status := NOT_ENTERED\<rparr>)"
proof -
  let ?s' = "s2\<lparr>status := NOT_ENTERED\<rparr>"
  let ?P = "priceInFIL (datasets s did)"
  let ?up = "uploader (datasets s did)"
  from m have cnt: "datasetCount m = datasetCount s" and pem: "publisherEarnings m = publisherEarnings s"
    and st: "\<And>j. static (datasets m j) = static (datasets s j)"
    by (simp_all add: counters_only_def)
  have f: "uploader (datasets m j) = uploader (datasets s j)"
    "earnings (datasets m j) = earnings (datasets s j)"
    "priceInFIL (datasets m j) = priceInFIL (datasets s j)" for j
    using static_eqD [OF st, of j] by simp_all
  note s2 = purchase_writes_Inr(1) [OF w]
  have e_ok: "unat (earnings (datasets s did) + ?P) = unat (earnings (datasets s did)) + unat ?P"
    using purchase_writes_Inr(2) [OF w] by (simp add: f unat_word_ariths)
  have p_ok: "unat (publisherEarnings s ?up + ?P) = unat (publisherEarnings s ?up) + unat ?P"
    using purchase_writes_Inr(3) [OF w] by (simp add: f pem unat_word_ariths)
  have did: "did < datasetCount s"
  proof (rule ccontr)
    assume "\<not> did < datasetCount s"
    then have "static (datasets s did) = empty_dataset" using c by (simp add: consistent_def)
    then show False using purchase_requires_None [OF req] static_emptyD by blast
  qed
  have ids: "ids ?s' = ids s" by (simp add: ids_def s2 cnt)
  have up': "uploader (datasets s2 j) = uploader (datasets s j)" for j
    by (simp add: s2 f)
  have ea': "unat (earnings (datasets s2 j)) =
      (if j = did then unat (earnings (datasets s j)) + unat ?P else unat (earnings (datasets s j)))" for j
    using e_ok by (simp add: s2 f)
  have blank: "static (datasets ?s' j) = empty_dataset" if "datasetCount ?s' \<le> j" for j
  proof -
    from that have le: "datasetCount s \<le> j" by (simp add: s2 cnt)
    with did have "j \<noteq> did" by auto
    then have "static (datasets ?s' j) = static (datasets s j)" by (simp add: s2 st)
    with le c show ?thesis by (simp add: consistent_def)
  qed
  have own: "owned_earnings ?s' u = (if u = ?up then owned_earnings s u + unat ?P else owned_earnings s u)" for u
  proof (cases "u = ?up")
    case True
    have "(\<Sum>j\<leftarrow>ids s. if uploader (datasets s j) = u then
              (if j = did then unat (earnings (datasets s j)) + unat ?P else unat (earnings (datasets s j))) else 0)
        = (\<Sum>j\<leftarrow>ids s. if j = did then (if uploader (datasets s j) = u then unat (earnings (datasets s j)) else 0) + unat ?P
              else (if uploader (datasets s j) = u then unat (earnings (datasets s j)) else 0))"
      by (rule sum_list_cong_set) (simp add: True)
    also have "\<dots> = (\<Sum>j\<leftarrow>ids s. if uploader (datasets s j) = u then unat (earnings (datasets s j)) else 0) + unat ?P"
      by (rule sum_list_bump) (simp_all add: distinct_ids set_ids did)
    finally show ?thesis using True by (simp add: owned_earnings_sum ids up' ea' cong: if_cong)
  next
    case False
    have "(\<Sum>j\<leftarrow>ids s. if uploader (datasets s j) = u then
              (if j = did then unat (earnings (datasets s j)) + unat ?P else unat (earnings (datasets s j))) else 0)
        = (\<Sum>j\<leftarrow>ids s. if uploader (datasets s j) = u then unat (earnings (datasets s j)) else 0)"
      by (rule sum_list_cong_set) (use False in auto)
    then show ?thesis using False by (simp add: owned_earnings_sum ids up' ea' cong: if_cong)
  qed
  have pe: "unat (publisherEarnings s2 u) = (if u = ?up then unat (publisherEarnings s u) + unat ?P else unat (publisherEarnings s u))" for u
    using p_ok by (simp add: s2 f pem)
  have "status ?s' = NOT_ENTERED" by simp
  with c blank own pe show ?thesis unfolding consistent_def by simp
qed

lemma exec_consistent:
  assumes "exec now s a c = Inr s'" and "consistent s"
  shows "consistent s'"
proof (cases c)
  case (UploadDataset cid analysis pub priv paid price)
  with assms show ?thesis by (auto intro: uploadDataset_consistent)
next
  case (PurchaseDataset did token beh)
  obtain cbs outcome where beh: "beh = Token cbs outcome" by (cases beh)
  from assms(1) PurchaseDataset beh
  have "purchaseDataset now s a did token (Token cbs outcome) = Inr s'" by simp
  then show ?thesis
    by (rule purchaseDataset_parts) (use assms(2) in \<open>auto intro: purchase_consistent\<close>)
qed (use assms in \<open>auto intro: counters_only_consistent
        dest: incrementViews_counters incrementDownloads_counters addPaymentToken_counters
              transferOwnership_counters renounceOwnership_counters\<close>)

lemma transact_consistent: "consistent s \<Longrightarrow> consistent (transact s x)"
  by (cases x) (auto simp: transact_def split: sum.splits intro: exec_consistent)

lemma run_Nil: "run s [] = s"
  by (simp add: run_def)

lemma run_Cons: "run s (x # xs) = run (transact s x) xs"
  by (simp add: run_def)

lemma run_consistent: "consistent s \<Longrightarrow> consistent (run s txs)"
  by (induction txs arbitrary: s) (simp_all add: run_Nil run_Cons transact_consistent)

lemma constructor_consistent: "consistent (constructor deployer)"
  by (simp add: consistent_def constructor_def owned_earnings_sum ids_def static_def empty_dataset_def)

subsection \<open>Grants and assigned records along a run\<close>

lemma exec_hasAccess_mono:
  assumes "exec now s a c = Inr s'" and "hasAccess s j b"
  shows "hasAccess s' j b"
  using assms(1)
proof (cases rule: exec_Inr_cases [consumes 1, case_names counters upload purchase])
  case counters
  with assms(2) show ?thesis by (simp add: counters_only_def)
next
  case (upload cid analysis pub priv paid price)
  from assms(2) show ?thesis by (simp add: uploadDataset_Inr(1) [OF upload])
next
  case (purchase did token cbs outcome)
  from purchase show ?thesis
  proof (rule purchaseDataset_parts)
    fix m s2
    assume m: "counters_only (s\<lparr>status := ENTERED\<rparr>) m"
      and w: "purchase_writes m a did = Inr s2"
      and s': "s' = s2\<lparr>status := NOT_ENTERED\<rparr>"
    from m have "hasAccess m = hasAccess s" by (simp add: counters_only_def)
    with assms(2) show ?thesis
      by (auto simp: s' purchase_writes_Inr(1) [OF w])
  qed
qed

lemma transact_hasAccess_mono: "hasAccess s j b \<Longrightarrow> hasAccess (transact s x) j b"
  by (cases x) (auto simp: transact_def split: sum.splits intro: exec_hasAccess_mono)

lemma run_hasAccess_mono: "hasAccess s j b \<Longrightarrow> hasAccess (run s txs) j b"
  by (induction txs arbitrary: s) (simp_all add: run_Nil run_Cons transact_hasAccess_mono)

lemma exec_assigned:
  assumes "exec now s a c = Inr s'" and "did < datasetCount s"
  shows "did < datasetCount s' \<and> isPublic (datasets s' did) = isPublic (datasets s did) \<and>
         isPrivate (datasets s' did) = isPrivate (datasets s did) \<and>
         isPaid (datasets s' did) = isPaid (datasets s did)"
  using assms(1)
proof (cases rule: exec_Inr_cases [consumes 1, case_names counters upload purchase])
  case counters
  then have "datasetCount s' = datasetCount s" "static (datasets s' did) = static (datasets s did)"
    by (simp_all add: counters_only_def)
  with assms(2) static_eqD [of "datasets s' did" "datasets s did"] show ?thesis by simp
next
  case (upload cid analysis pub priv paid price)
  from assms(2) have "did \<noteq> datasetCount s" by simp
  moreover from assms(2) uploadDataset_Inr(2) [OF upload] have "did < datasetCount s + 1"
    by (simp add: word_less_nat_alt)
  ultimately show ?thesis by (simp add: uploadDataset_Inr(1) [OF upload])
next
  case (purchase did' token cbs outcome)
  from purchase show ?thesis
  proof (rule purchaseDataset_parts)
    fix m s2
    assume m: "counters_only (s\<lparr>status := ENTERED\<rparr>) m" and w: "purchase_writes m a did' = Inr s2"
      and s': "s' = s2\<lparr>status := NOT_ENTERED\<rparr>"
    from m have "datasetCount m = datasetCount s" "static (datasets m did) = static (datasets s did)"
      by (simp_all add: counters_only_def)
    with assms(2) static_eqD [of "datasets m did" "datasets s did"] show ?thesis
      by (auto simp: s' purchase_writes_Inr(1) [OF w])
  qed
qed

lemma transact_assigned:
  assumes "did < datasetCount s"
  shows "did < datasetCount (transact s x) \<and>
         isPublic (datasets (transact s x) did) = isPublic (datasets s did) \<and>
         isPrivate (datasets (transact s x) did) = isPrivate (datasets s did) \<and>
         isPaid (datasets (transact s x) did) = isPaid (datasets s did)"
proof (cases x)
  case (fields now a c)
  show ?thesis
  proof (cases "exec now s a c")
    case (Inl e)
    with assms fields show ?thesis by (simp add: transact_def)
  next
    case (Inr s')
    with exec_assigned [OF Inr assms] fields show ?thesis by (simp add: transact_def)
  qed
qed

lemma run_assigned:
  "did < datasetCount s \<Longrightarrow>
   did < datasetCount (run s txs) \<and>
   isPublic (datasets (run s txs) did) = isPublic (datasets s did) \<and>
   isPrivate (datasets (run s txs) did) = isPrivate (datasets s did) \<and>
   isPaid (datasets (run s txs) did) = isPaid (datasets s did)"
proof (induction txs arbitrary: s)
  case Nil
  then show ?case by (simp add: run_Nil)
next
  case (Cons x txs)
  from transact_assigned [OF Cons.prems, of x] Cons.IH [of "transact s x"]
  show ?case by (simp add: run_Cons)
qed

lemma consistent_listed_assigned:
  assumes "consistent s" and "isPublic (datasets s did)"
  shows "did < datasetCount s"
proof (rule ccontr)
  assume "\<not> did < datasetCount s"
  with assms(1) have "static (datasets s did) = empty_dataset" by (simp add: consistent_def)
  with assms(2) show False using static_emptyD by blast
qed

subsection \<open>The example states, evaluated\<close>

lemma s_market_eq:
  "s_market = \<lparr>cidExists = (\<lambda>_. False)(''A'' := True),
     datasets = (\<lambda>_. empty_dataset)(0 := \<lparr>datasetCID = ''A'', analysisCID = ''B'', uploader = 2,
        isPublic = True, isPrivate = False, timestamp = 100, views = 0, downloads = 0,
        isPaid = True, priceInFIL = 10, earnings = 0\<rparr>),
     userUploads = (\<lambda>_. [])(2 := [0]), hasAccess = (\<lambda>_ _. False),
     publisherEarnings = (\<lambda>_. 0), totalPlatformEarnings = 0,
     paymentTokens = (\<lambda>_. empty_token)(7 := \<lparr>tokenAddress = 7, isAccepted = True, symbol = ''X''\<rparr>),
     acceptedTokenByIndex = (\<lambda>_. 0)(0 := 7), acceptedTokenCount = 1, datasetCount = 1,
     owner = 1, status = NOT_ENTERED\<rparr>"
  by (simp add: s_market_def market_txs_def constructor_def empty_token_def
        uploadDataset_def incrementViews_def
        incrementDownloads_def addPaymentToken_def purchase_requires_def purchase_writes_def
        checked_add_def checked_inc_def transact_def run_def canView_def canDownload_def)

lemma purchase_market:
  "purchaseDataset 200 s_market 3 0 7 (Token [] (Returns ok)) =
     Inr (s_market\<lparr>hasAccess := (\<lambda>_ _. False)(0 := (\<lambda>_. False)(3 := True)),
        datasets := (\<lambda>_. empty_dataset)(0 := \<lparr>datasetCID = ''A'', analysisCID = ''B'', uploader = 2,
        isPublic = True, isPrivate = False, timestamp = 100, views = 0, downloads = 0,
        isPaid = True, priceInFIL = 10, earnings = 10\<rparr>),
        publisherEarnings := (\<lambda>_. 0)(2 := 10), totalPlatformEarnings := 10\<rparr>)"
  by (simp add: s_market_eq uploadDataset_def incrementViews_def
        incrementDownloads_def addPaymentToken_def purchase_requires_def purchase_writes_def
        checked_add_def checked_inc_def transact_def run_def canView_def canDownload_def)

lemma s_sold_eq:
  "s_sold = s_market\<lparr>hasAccess := (\<lambda>_ _. False)(0 := (\<lambda>_. False)(3 := True)),
        datasets := (\<lambda>_. empty_dataset)(0 := \<lparr>datasetCID = ''A'', analysisCID = ''B'', uploader = 2,
        isPublic = True, isPrivate = False, timestamp = 100, views = 0, downloads = 0,
        isPaid = True, priceInFIL = 10, earnings = 10\<rparr>),
        publisherEarnings := (\<lambda>_. 0)(2 := 10), totalPlatformEarnings := 10\<rparr>"
  by (simp add: s_sold_def transact_def purchase_market del: purchaseDataset.simps)

lemma purchase_market_sold:
  "purchaseDataset 200 s_market 3 0 7 (Token [] (Returns True)) = Inr s_sold"
  by (simp add: purchase_market s_sold_eq del: purchaseDataset.simps)

lemma ids1: "datasetCount s = 1 \<Longrightarrow> ids s = [0]"
  by (simp add: ids_def)

subsection \<open>Upload validation\<close>

text \<open>
  Claim C4. An upload that violates a precondition (the CID is already used or empty,
  public together with private, private together with paid, or paid at price 0) reverts
  in every state, with the message of the first \<^verbatim>\<open>require\<close> that fails, in the source's
  order: \<^verbatim>\<open>"CID exists"\<close> (DuplicateCID), \<^verbatim>\<open>"CID empty"\<close>, \<^verbatim>\<open>"Public+Private"\<close> and
  \<^verbatim>\<open>"Private not paid"\<close> (InvalidCombination), \<^verbatim>\<open>"Price 0"\<close> (InvalidPrice); a nested call
  made while the guard is entered reverts with the guard's error before that. The
  transaction leaves the whole storage as it was: the dataset count, the used CIDs, the
  records and the upload index.
\<close>

theorem upload_rejects_invalid:
  assumes "cidExists s cid \<or> cid = [] \<or> (pub \<and> priv) \<or> (priv \<and> paid) \<or> (paid \<and> price = 0)"
  shows "uploadDataset now s sender cid analysis pub priv paid price =
           Inl (if status s = ENTERED then ReentrancyGuardReentrantCall
                else if cidExists s cid then Require ''CID exists''
                else if cid = [] then Require ''CID empty''
                else if pub \<and> priv then Require ''Public+Private''
                else if priv \<and> paid then Require ''Private not paid''
                else Require ''Price 0'')
         \<and> transact s (now, sender, UploadDataset cid analysis pub priv paid price) = s"
  using assms by (auto simp: uploadDataset_def transact_def word_greater_zero_iff)

theorem upload_rejects_invalid_witness:
  "uploadDataset 300 s_market 4 ''Z'' [] False True True 5 = Inl (Require ''Private not paid'') \<and>
   transact s_market (300, 4, UploadDataset ''Z'' [] False True True 5) = s_market \<and>
   uploadDataset 300 s_market 4 ''A'' [] True False False 0 = Inl (Require ''CID exists'') \<and>
   uploadDataset 300 s_market 4 ''Z'' [] True False True 0 = Inl (Require ''Price 0'')"
  using upload_rejects_invalid [of s_market "''Z''" False True True 5 300 4 "[]"]
    upload_rejects_invalid [of s_market "''A''" True False False 0 300 4 "[]"]
    upload_rejects_invalid [of s_market "''Z''" True False True 0 300 4 "[]"]
  by (simp add: s_market_eq)

subsection \<open>Settlement and the result of the transfer\<close>

lemma purchaseDataset_result_unread:
  "purchaseDataset now s a did token (Token cbs (Returns False)) =
   purchaseDataset now s a did token (Token cbs (Returns True))"
  by (simp add: Let_def split: option.splits)

lemma purchaseDataset_transfer_reverts:
  "\<exists>e. purchaseDataset now s a did token (Token cbs Reverts) = Inl e"
  by (simp add: Let_def split: option.splits)

text \<open>
  Claim C1. The claim asks that the settlement writes happen only when the transfer
  reports success. The source calls \<^verbatim>\<open>transferFrom\<close> and drops the boolean it returns: a
  token that reports failure by returning \<^verbatim>\<open>false\<close> (instead of reverting) still gets the
  purchase settled. In the example market, account 3 buys dataset 0 with such a token:
  the call succeeds, account 3 is granted access and the earnings of the dataset and of
  its publisher rise by the price 10.
\<close>

theorem purchase_ignores_transfer_result:
  "purchaseDataset 200 s_market 3 0 7 (Token [] (Returns False)) = Inr s_sold \<and>
   hasAccess s_sold 0 3 \<and> earnings (datasets s_sold 0) = 10 \<and> publisherEarnings s_sold 2 = 10"
  by (simp add: purchase_market s_sold_eq del: purchaseDataset.simps)

subsection \<open>The re-entrancy guard\<close>

text \<open>
  Claim C2. The claim asks that every mutator rejects a nested call while a mutating
  call is in flight. \<^verbatim>\<open>uploadDataset\<close> and \<^verbatim>\<open>purchaseDataset\<close> carry \<^verbatim>\<open>nonReentrant\<close> and do
  so (\<open>uploadDataset_entered\<close>, \<open>purchaseDataset_entered\<close>); \<^verbatim>\<open>incrementViews\<close> and
  \<^verbatim>\<open>incrementDownloads\<close> carry no guard. In the example market, the token calls
  \<^verbatim>\<open>incrementViews(0)\<close> during the transfer of a purchase, and the uploader, called by
  the token, calls \<^verbatim>\<open>incrementDownloads(0)\<close>: both nested calls are accepted, and the
  purchase commits with both counters of dataset 0 raised to 1.
\<close>

theorem nested_increments_accepted:
  "purchaseDataset 200 s_market 3 0 7
     (Token [(7, IncrementViews 0), (2, IncrementDownloads 0)] (Returns True)) =
   Inr (s_sold\<lparr>datasets := (datasets s_sold)
          (0 := (datasets s_sold 0)\<lparr>views := 1, downloads := 1\<rparr>)\<rparr>)"
  by (simp add: s_sold_eq s_market_eq uploadDataset_def incrementViews_def
        incrementDownloads_def addPaymentToken_def purchase_requires_def purchase_writes_def
        checked_add_def checked_inc_def transact_def run_def canView_def canDownload_def)

subsection \<open>Effects of a purchase\<close>

text \<open>
  What a successful purchase of \<open>did\<close> by \<open>buyer\<close> has written, at the price \<open>P\<close> of the
  record: the earnings of the dataset and of its uploader have risen by exactly \<open>P\<close> (as
  natural numbers: nothing wrapped), the buyer holds the grant, and the grants and the
  publisher earnings are otherwise those before the call. The records are those at the
  moment the transfer returned, with the earnings of \<open>did\<close> raised: the calls the token
  has nested in the transfer can have moved view and download counters of any record.
\<close>

lemma purchase_effects:
  assumes "purchaseDataset now s buyer did token (Token cbs outcome) = Inr s'"
  shows
   "unat (earnings (datasets s' did)) =
      unat (earnings (datasets s did)) + unat (priceInFIL (datasets s did)) \<and>
    unat (publisherEarnings s' (uploader (datasets s did))) =
      unat (publisherEarnings s (uploader (datasets s did))) + unat (priceInFIL (datasets s did)) \<and>
    hasAccess s' did buyer \<and>
    datasets s' = (datasets (callbacks now (s\<lparr>status := ENTERED\<rparr>) cbs))
      (did := (datasets (callbacks now (s\<lparr>status := ENTERED\<rparr>) cbs) did)
         \<lparr>earnings := earnings (datasets s did) + priceInFIL (datasets s did)\<rparr>) \<and>
    (\<forall>j. static (datasets (callbacks now (s\<lparr>status := ENTERED\<rparr>) cbs) j) = static (datasets s j)) \<and>
    (cbs = [] \<longrightarrow> (\<forall>j. j \<noteq> did \<longrightarrow> datasets s' j = datasets s j)) \<and>
    hasAccess s' = (hasAccess s)(did := (hasAccess s did)(buyer := True)) \<and>
    publisherEarnings s' = (publisherEarnings s)(uploader (datasets s did) :=
      publisherEarnings s (uploader (datasets s did)) + priceInFIL (datasets s did)) \<and>
    totalPlatformEarnings s' = totalPlatformEarnings s + priceInFIL (datasets s did) \<and>
    cidExists s' = cidExists s \<and> userUploads s' = userUploads s \<and>
    datasetCount s' = datasetCount s \<and> status s' = status s"
  using assms
proof (rule purchaseDataset_parts)
  fix m s2
  assume m: "counters_only (s\<lparr>status := ENTERED\<rparr>) m"
    and m_def: "m = callbacks now (s\<lparr>status := ENTERED\<rparr>) cbs"
    and w: "purchase_writes m buyer did = Inr s2"
    and s': "s' = s2\<lparr>status := NOT_ENTERED\<rparr>"
    and ne: "status s = NOT_ENTERED"
  from m have eqs: "datasetCount m = datasetCount s" "publisherEarnings m = publisherEarnings s"
      "hasAccess m = hasAccess s" "cidExists m = cidExists s" "userUploads m = userUploads s"
      "totalPlatformEarnings m = totalPlatformEarnings s"
    and st: "\<And>j. static (datasets m j) = static (datasets s j)"
    by (simp_all add: counters_only_def)
  have f: "uploader (datasets m j) = uploader (datasets s j)"
    "earnings (datasets m j) = earnings (datasets s j)"
    "priceInFIL (datasets m j) = priceInFIL (datasets s j)" for j
    using static_eqD [OF st, of j] by simp_all
  note s2 = purchase_writes_Inr(1) [OF w]
  have 1: "unat (earnings (datasets s' did)) =
      unat (earnings (datasets s did)) + unat (priceInFIL (datasets s did))"
    using purchase_writes_Inr(2) [OF w] by (simp add: s' s2 f unat_word_ariths)
  have 2: "unat (publisherEarnings s' (uploader (datasets s did))) =
      unat (publisherEarnings s (uploader (datasets s did))) + unat (priceInFIL (datasets s did))"
    using purchase_writes_Inr(3) [OF w] by (simp add: s' s2 f eqs unat_word_ariths)
  have 3: "hasAccess s' did buyer" by (simp add: s' s2)
  have 4: "datasets s' = (datasets m)(did := (datasets m did)
         \<lparr>earnings := earnings (datasets s did) + priceInFIL (datasets s did)\<rparr>)"
    by (simp add: s' s2 f)
  have 5: "cbs = [] \<longrightarrow> (\<forall>j. j \<noteq> did \<longrightarrow> datasets s' j = datasets s j)"
    by (simp add: 4) (simp add: m_def)
  have 6: "hasAccess s' = (hasAccess s)(did := (hasAccess s did)(buyer := True))"
    by (simp add: s' s2 eqs)
  have 7: "publisherEarnings s' = (publisherEarnings s)(uploader (datasets s did) :=
      publisherEarnings s (uploader (datasets s did)) + priceInFIL (datasets s did))"
    by (simp add: s' s2 eqs f)
  have 8: "totalPlatformEarnings s' = totalPlatformEarnings s + priceInFIL (datasets s did)"
    by (simp add: s' s2 eqs f)
  have 9: "cidExists s' = cidExists s \<and> userUploads s' = userUploads s \<and>
    datasetCount s' = datasetCount s \<and> status s' = status s"
    by (simp add: s' s2 eqs ne)
  from 1 2 3 4 5 6 7 8 9 st show ?thesis unfolding m_def by blast
qed

lemma s_pair_eq:
  "s_pair = s_market\<lparr>cidExists := (\<lambda>_. False)(''A'' := True, ''C'' := True),
     datasetCount := 2,
     datasets := (datasets s_market)(1 := \<lparr>datasetCID = ''C'', analysisCID = [], uploader = 4,
        isPublic = True, isPrivate = False, timestamp = 150, views = 0, downloads = 0,
        isPaid = False, priceInFIL = 0, earnings = 0\<rparr>),
     userUploads := (\<lambda>_. [])(2 := [0], 4 := [1])\<rparr>"
proof -
  have "s_pair = transact s_market (150, 4, UploadDataset ''C'' [] True False False 0)"
    by (simp add: s_pair_def pair_txs_def run_def s_market_def)
  then show ?thesis
    by (simp add: s_market_eq transact_def uploadDataset_def checked_inc_def checked_add_def)
qed

text \<open>
  Claim C5. The claim asks that a successful purchase raises the earnings of the dataset
  and of its uploader by exactly the price, grants the buyer access and leaves every
  field of every other dataset record unchanged. The first three hold
  (\<open>purchase_effects\<close>). The last does not: \<^verbatim>\<open>incrementViews\<close> and \<^verbatim>\<open>incrementDownloads\<close>
  carry no \<^verbatim>\<open>nonReentrant\<close>, so a token can call them during the transfer. In the
  example market with a second dataset, account 3 buys dataset 0 with a token that calls
  \<^verbatim>\<open>incrementViews(1)\<close>: the purchase succeeds, and the views of dataset 1 have gone
  from 0 to 1.
\<close>

theorem purchase_moves_other_record:
  "purchaseDataset 200 s_pair 3 0 7 (Token [(7, IncrementViews 1)] (Returns True)) =
     Inr s_pair_sold \<and>
   hasAccess s_pair_sold 0 3 \<and> earnings (datasets s_pair_sold 0) = 10 \<and>
   views (datasets s_pair 1) = 0 \<and> views (datasets s_pair_sold 1) = 1 \<and>
   datasets s_pair_sold 1 \<noteq> datasets s_pair 1"
  by (simp add: s_pair_sold_def s_pair_eq s_market_eq transact_def incrementViews_def
        canView_def purchase_requires_def purchase_writes_def checked_add_def checked_inc_def)

subsection \<open>A purchase succeeds at most once\<close>

text \<open>
  Claim C6. In a state reached from deployment by any transactions, let a purchase of
  \<open>did\<close> by \<open>buyer\<close> succeed. Then after any further transactions, every purchase of
  \<open>did\<close> by the same buyer, with any token, reverts with \<^verbatim>\<open>"Already"\<close>
  (AlreadyPurchased) and leaves the storage, so the earnings and the grant, as it was.
  And no transaction, in any state, sets a grant that is true back to false.
\<close>

theorem purchase_at_most_once:
  assumes s: "s = run (constructor deployer) txs"
    and first: "purchaseDataset now s buyer did token (Token cbs outcome) = Inr s1"
  shows "purchaseDataset now' (run s1 txs') buyer did token' beh' = Inl (Require ''Already'') \<and>
         transact (run s1 txs') (now', buyer, PurchaseDataset did token' beh') = run s1 txs' \<and>
         (\<forall>st j b x. hasAccess st j b \<longrightarrow> hasAccess (transact st x) j b)"
proof -
  have cs: "consistent s" unfolding s by (rule run_consistent [OF constructor_consistent])
  have "exec now s buyer (PurchaseDataset did token (Token cbs outcome)) = Inr s1"
    using first by simp
  then have cs1: "consistent s1" using cs by (rule exec_consistent)
  from first show ?thesis
  proof (rule purchaseDataset_parts)
    fix m s2
    assume m: "counters_only (s\<lparr>status := ENTERED\<rparr>) m"
      and req: "purchase_requires s buyer did token = None"
      and w: "purchase_writes m buyer did = Inr s2"
      and s1: "s1 = s2\<lparr>status := NOT_ENTERED\<rparr>"
    note r = purchase_requires_None [OF req]
    from m have st: "static (datasets m did) = static (datasets s did)"
      and cnt: "datasetCount m = datasetCount s" by (simp_all add: counters_only_def)
    from r cs have "did < datasetCount s" by (auto intro: consistent_listed_assigned)
    then have a1: "did < datasetCount s1" by (simp add: s1 purchase_writes_Inr(1) [OF w] cnt)
    have f1: "isPublic (datasets s1 did)" "\<not> isPrivate (datasets s1 did)" "isPaid (datasets s1 did)"
      using r static_eqD [OF st] by (simp_all add: s1 purchase_writes_Inr(1) [OF w])
    have h1: "hasAccess s1 did buyer" by (simp add: s1 purchase_writes_Inr(1) [OF w])
    let ?t = "run s1 txs'"
    have "isPublic (datasets ?t did)" "\<not> isPrivate (datasets ?t did)" "isPaid (datasets ?t did)"
      using run_assigned [OF a1, of txs'] f1 by simp_all
    moreover have "hasAccess ?t did buyer" using h1 by (rule run_hasAccess_mono)
    moreover have "status ?t = NOT_ENTERED"
      using run_consistent [OF cs1, of txs'] by (simp add: consistent_def)
    ultimately have again: "purchaseDataset now' ?t buyer did token' beh' = Inl (Require ''Already'')"
      by (cases beh') (simp add: purchase_requires_def)
    then have same: "transact ?t (now', buyer, PurchaseDataset did token' beh') = ?t"
      by (simp add: transact_def)
    show ?thesis
    proof (intro conjI allI impI)
      show "purchaseDataset now' ?t buyer did token' beh' = Inl (Require ''Already'')"
        by (rule again)
      show "transact ?t (now', buyer, PurchaseDataset did token' beh') = ?t"
        by (rule same)
      fix st :: storage and j b x
      assume "hasAccess st j b"
      then show "hasAccess (transact st x) j b" by (rule transact_hasAccess_mono)
    qed
  qed
qed

theorem purchase_at_most_once_witness:
  "s_market = run (constructor 1) market_txs \<and>
   purchaseDataset 200 s_market 3 0 7 (Token [] (Returns True)) = Inr s_sold \<and>
   purchaseDataset 300 (run s_sold [(250, 4, IncrementViews 0)]) 3 0 7 (Token [] (Returns True))
     = Inl (Require ''Already'') \<and>
   transact (run s_sold [(250, 4, IncrementViews 0)])
     (300, 3, PurchaseDataset 0 7 (Token [] (Returns True)))
     = run s_sold [(250, 4, IncrementViews 0)] \<and>
   hasAccess (transact s_sold (250, 4, IncrementViews 0)) 0 3"
proof -
  have h: "hasAccess s_sold 0 3" by (simp add: s_sold_eq)
  from purchase_at_most_once [OF s_market_def purchase_market_sold,
      of 300 "[(250, 4, IncrementViews 0)]" 7 "Token [] (Returns True)"]
    purchase_market_sold h
  show ?thesis by (simp add: s_market_def)
qed

subsection \<open>Publisher earnings are the sum of their datasets' earnings\<close>

text \<open>
  Claim C7. In every state reached from deployment by any sequence of transactions
  (uploads, purchases, counter increments, allowlist and ownership changes, reverted or
  not), the earnings of every identity \<open>u\<close> are the sum of the earnings of all datasets
  whose uploader is \<open>u\<close>.
\<close>

theorem publisher_earnings_sum:
  "unat (publisherEarnings (run (constructor deployer) txs) u) =
     owned_earnings (run (constructor deployer) txs) u"
  using run_consistent [OF constructor_consistent, of deployer txs]
  by (simp add: consistent_def)

theorem publisher_earnings_sum_witness:
  "run (constructor 1) (market_txs @ [(200, 3, PurchaseDataset 0 7 (Token [] (Returns True)))])
     = s_sold \<and>
   unat (publisherEarnings s_sold 2) = 10 \<and> owned_earnings s_sold 2 = 10"
proof -
  have r: "run (constructor 1)
      (market_txs @ [(200, 3, PurchaseDataset 0 7 (Token [] (Returns True)))]) = s_sold"
    by (simp add: run_def s_sold_def s_market_def)
  have "unat (publisherEarnings s_sold 2) = 10"
    by (simp add: s_sold_eq)
  with r publisher_earnings_sum
    [of 1 "market_txs @ [(200, 3, PurchaseDataset 0 7 (Token [] (Returns True)))]" 2]
  show ?thesis by simp
qed

subsection \<open>The loops of the page query\<close>

lemma unat_inc: "(i::'a::len word) < n \<Longrightarrow> unat (i + 1) = Suc (unat i)"
  by unat_arith

lemma listed_from_end: "\<not> i < datasetCount s \<Longrightarrow> listed_from s i = []"
  by (simp add: listed_from_def word_less_nat_alt)

lemma listed_from_step:
  assumes "i < datasetCount s"
  shows "listed_from s i =
           (if listed (datasets s i) then [datasets s i] else []) @ listed_from s (i + 1)"
proof -
  from assms have "unat i < unat (datasetCount s)" by (simp add: word_less_nat_alt)
  then have "[unat i..<unat (datasetCount s)] = unat i # [Suc (unat i)..<unat (datasetCount s)]"
    by (rule upt_conv_Cons)
  then show ?thesis by (simp add: listed_from_def unat_inc [OF assms])
qed

lemma listed_from_0: "listed_from s 0 = listed_datasets s"
  by (simp add: listed_from_def listed_datasets_def all_datasets_def ids_def)

lemma count_listed_unat:
  "unat tot \<le> unat i \<Longrightarrow>
   unat (count_listed s i tot) = unat tot + length (listed_from s i)"
proof (induction s i tot rule: count_listed.induct)
  case (1 s i tot)
  show ?case
  proof (cases "i < datasetCount s")
    case False
    then show ?thesis by (subst count_listed.simps) (simp add: listed_from_end)
  next
    case True
    note i1 = unat_inc [OF True]
    from True have lt: "unat i < unat (datasetCount s)" by (simp add: word_less_nat_alt)
    have t1: "unat (tot + 1) = Suc (unat tot)"
    proof -
      have "unat tot + 1 < 2 ^ LENGTH(256)"
        using "1.prems" lt unsigned_less [of "datasetCount s", where 'a = nat] by simp
      then show ?thesis by (simp add: unat_word_ariths)
    qed
    show ?thesis
    proof (cases "listed (datasets s i)")
      case l: True
      have "unat (count_listed s (i + 1) (tot + 1)) = unat (tot + 1) + length (listed_from s (i + 1))"
        using "1.IH" [OF True] l "1.prems" by (simp add: i1 t1)
      with True l show ?thesis
        by (subst count_listed.simps) (simp add: listed_from_step t1)
    next
      case l: False
      have "unat (count_listed s (i + 1) tot) = unat tot + length (listed_from s (i + 1))"
        using "1.IH" [OF True] l "1.prems" by (simp add: i1)
      with True l show ?thesis
        by (subst count_listed.simps) (simp add: listed_from_step)
    qed
  qed
qed

lemma count_listed_total: "unat (count_listed s 0 0) = length (listed_datasets s)"
  using count_listed_unat [of 0 0 s] by (simp add: listed_from_0)

lemma fill_page_end:
  "\<not> i < datasetCount s \<Longrightarrow> fill_page s start stop i p idx cursor = Inr p"
  by (subst fill_page.simps) simp

lemma fill_page_skip:
  "i < datasetCount s \<Longrightarrow> \<not> listed (datasets s i) \<Longrightarrow>
   fill_page s start stop i p idx cursor = fill_page s start stop (i + 1) p idx cursor"
  by (subst fill_page.simps) simp

lemma fill_page_hit_last:
  "i < datasetCount s \<Longrightarrow> listed (datasets s i) \<Longrightarrow> start \<le> cursor \<Longrightarrow> cursor < stop \<Longrightarrow>
   unat idx < length p \<Longrightarrow> stop \<le> cursor + 1 \<Longrightarrow>
   fill_page s start stop i p idx cursor = Inr (p[unat idx := datasets s i])"
  by (subst fill_page.simps) (simp add: Let_def)

lemma fill_page_hit_more:
  "i < datasetCount s \<Longrightarrow> listed (datasets s i) \<Longrightarrow> start \<le> cursor \<Longrightarrow> cursor < stop \<Longrightarrow>
   unat idx < length p \<Longrightarrow> \<not> stop \<le> cursor + 1 \<Longrightarrow>
   fill_page s start stop i p idx cursor =
   fill_page s start stop (i + 1) (p[unat idx := datasets s i]) (idx + 1) (cursor + 1)"
  by (subst fill_page.simps) (simp add: Let_def)

lemma fill_page_miss_last:
  "i < datasetCount s \<Longrightarrow> listed (datasets s i) \<Longrightarrow> \<not> (start \<le> cursor \<and> cursor < stop) \<Longrightarrow>
   stop \<le> cursor + 1 \<Longrightarrow>
   fill_page s start stop i p idx cursor = Inr p"
  by (subst fill_page.simps) (auto simp: Let_def)

lemma fill_page_miss_more:
  "i < datasetCount s \<Longrightarrow> listed (datasets s i) \<Longrightarrow> \<not> (start \<le> cursor \<and> cursor < stop) \<Longrightarrow>
   \<not> stop \<le> cursor + 1 \<Longrightarrow>
   fill_page s start stop i p idx cursor = fill_page s start stop (i + 1) p idx (cursor + 1)"
  by (subst fill_page.simps) (auto simp: Let_def)

lemma filled_Nil: "filled p k [] = p"
  by (simp add: filled_def)

lemma filled_Cons: "k < length p \<Longrightarrow> filled p k (d # coll) = filled (p[k := d]) (Suc k) coll"
  by (simp add: filled_def upd_conv_take_nth_drop add.commute)

lemma collected_Nil: "collected st en c [] = []"
  by (simp add: collected_def)

lemma collected_past: "en \<le> c \<Longrightarrow> collected st en c rest = []"
  by (simp add: collected_def)

lemma collected_empty_window: "en \<le> st \<Longrightarrow> collected st en c rest = []"
  by (simp add: collected_def)

lemma collected_hit:
  "st \<le> c \<Longrightarrow> c < en \<Longrightarrow> collected st en c (d # rest) = d # collected st en (Suc c) rest"
proof -
  assume a: "st \<le> c" "c < en"
  then have "max st c = c" "max st (Suc c) = Suc c" "st - c = 0" "st - Suc c = 0"
    "en - c = Suc (en - Suc c)" by arith+
  then show ?thesis by (simp add: collected_def)
qed

lemma collected_before:
  "c < st \<Longrightarrow> collected st en c (d # rest) = collected st en (Suc c) rest"
proof -
  assume a: "c < st"
  then have "max st c = st" "max st (Suc c) = st" "st - c = Suc (st - Suc c)" by arith+
  then show ?thesis by (simp add: collected_def)
qed

lemma fill_page_collects:
  assumes "unat cursor \<le> unat i"
    and "unat idx = unat cursor - unat start"
    and "length p = unat stop - unat start"
    and "unat start \<le> unat stop"
  shows "fill_page s start stop i p idx cursor =
     Inr (filled p (unat idx) (collected (unat start) (unat stop) (unat cursor) (listed_from s i)))"
  using assms
proof (induction "unat (datasetCount s) - unat i" arbitrary: i p idx cursor)
  case 0
  then have "\<not> i < datasetCount s" by (simp add: word_less_nat_alt)
  then show ?case by (simp add: fill_page_end listed_from_end collected_Nil filled_Nil)
next
  case (Suc n)
  let ?st = "unat start" and ?en = "unat stop" and ?c = "unat cursor" and ?k = "unat idx"
  let ?d = "datasets s i" and ?rest = "listed_from s (i + 1)"
  from Suc.hyps(2) have lt: "unat i < unat (datasetCount s)" by simp
  then have True: "i < datasetCount s" by (simp add: word_less_nat_alt)
  note i1 = unat_inc [OF True]
  from Suc.hyps(2) have n: "n = unat (datasetCount s) - unat (i + 1)" by (simp add: i1)
  have bound: "unat i + 1 < 2 ^ LENGTH(256)"
    using lt unsigned_less [of "datasetCount s", where 'a = nat] by simp
  have c1: "unat (cursor + 1) = Suc ?c"
    using Suc.prems(1) bound by (simp add: unat_word_ariths)
  have k1: "unat (idx + 1) = Suc ?k"
    using Suc.prems(1,2) bound by (simp add: unat_word_ariths)
  show ?case
  proof (cases "listed ?d")
    case nl: False
    have "fill_page s start stop i p idx cursor = fill_page s start stop (i + 1) p idx cursor"
      using True nl by (rule fill_page_skip)
    also have "\<dots> = Inr (filled p ?k (collected ?st ?en ?c ?rest))"
      using n Suc.prems by (intro Suc.hyps(1)) (simp_all add: i1)
    finally show ?thesis using True nl by (simp add: listed_from_step)
  next
    case l: True
    have rest: "listed_from s i = ?d # ?rest" using True l by (simp add: listed_from_step)
    show ?thesis
    proof (cases "?st \<le> ?c \<and> ?c < ?en")
      case hit: True
      then have w: "start \<le> cursor" "cursor < stop"
        by (simp_all add: word_le_nat_alt word_less_nat_alt)
      from hit Suc.prems have kp: "?k < length p" by arith
      show ?thesis
      proof (cases "?en \<le> Suc ?c")
        case fin: True
        then have "stop \<le> cursor + 1" by (simp add: word_le_nat_alt c1)
        with True l w kp have "fill_page s start stop i p idx cursor = Inr (p[?k := ?d])"
          by (rule fill_page_hit_last)
        moreover have "collected ?st ?en ?c (?d # ?rest) = [?d]"
          using hit fin by (simp add: collected_hit collected_past)
        ultimately show ?thesis using kp by (simp add: rest filled_Cons filled_Nil)
      next
        case cont: False
        then have "\<not> stop \<le> cursor + 1" by (simp add: word_le_nat_alt c1)
        with True l w kp have "fill_page s start stop i p idx cursor =
              fill_page s start stop (i + 1) (p[?k := ?d]) (idx + 1) (cursor + 1)"
          by (rule fill_page_hit_more)
        also have "\<dots> = Inr (filled (p[?k := ?d]) (unat (idx + 1))
              (collected ?st ?en (unat (cursor + 1)) ?rest))"
        proof (intro Suc.hyps(1) n)
          show "unat (cursor + 1) \<le> unat (i + 1)" using Suc.prems(1) by (simp add: c1 i1)
          show "unat (idx + 1) = unat (cursor + 1) - unat start"
            using hit Suc.prems(2) unfolding c1 k1 by arith
          show "length (p[?k := ?d]) = ?en - ?st" using Suc.prems(3) by simp
          show "?st \<le> ?en" by (rule Suc.prems(4))
        qed
        finally show ?thesis using hit kp by (simp add: rest collected_hit filled_Cons c1 k1)
      qed
    next
      case miss: False
      then have w: "\<not> (start \<le> cursor \<and> cursor < stop)"
        by (simp add: word_le_nat_alt word_less_nat_alt)
      show ?thesis
      proof (cases "?en \<le> Suc ?c")
        case fin: True
        then have "stop \<le> cursor + 1" by (simp add: word_le_nat_alt c1)
        with True l w have "fill_page s start stop i p idx cursor = Inr p"
          by (rule fill_page_miss_last)
        moreover have "collected ?st ?en ?c (?d # ?rest) = []"
        proof (cases "?en \<le> ?c")
          case True
          then show ?thesis by (rule collected_past)
        next
          case False
          with miss fin Suc.prems(4) have "?en \<le> ?st" by arith
          then show ?thesis by (rule collected_empty_window)
        qed
        ultimately show ?thesis by (simp add: rest filled_Nil)
      next
        case cont: False
        then have "\<not> stop \<le> cursor + 1" by (simp add: word_le_nat_alt c1)
        with True l w have "fill_page s start stop i p idx cursor =
              fill_page s start stop (i + 1) p idx (cursor + 1)"
          by (rule fill_page_miss_more)
        also have "\<dots> = Inr (filled p ?k (collected ?st ?en (unat (cursor + 1)) ?rest))"
        proof (intro Suc.hyps(1) n)
          show "unat (cursor + 1) \<le> unat (i + 1)" using Suc.prems(1) by (simp add: c1 i1)
          show "?k = unat (cursor + 1) - unat start"
            using miss cont Suc.prems(2) unfolding c1 by arith
          show "length p = ?en - ?st" by (rule Suc.prems(3))
          show "?st \<le> ?en" by (rule Suc.prems(4))
        qed
        finally show ?thesis
          using miss cont by (simp add: rest c1 collected_before)
      qed
    qed
  qed
qed

subsection \<open>The page query\<close>

lemma page_exhausted:
  assumes "length (listed_datasets s) \<le> unat start"
  shows "getPublicDatasetPage s start limit = Inr ([], 0)"
proof -
  from assms have "count_listed s 0 0 \<le> start"
    by (simp add: word_le_nat_alt count_listed_total)
  then show ?thesis by (simp add: getPublicDatasetPage_def)
qed

lemma page_overflow:
  assumes "unat start < length (listed_datasets s)"
    and "2 ^ 256 \<le> unat start + unat limit"
  shows "getPublicDatasetPage s start limit = Inl Panic_overflow"
proof -
  from assms(1) have "\<not> count_listed s 0 0 \<le> start"
    by (simp add: word_le_nat_alt count_listed_total)
  moreover from assms(2) have "checked_add start limit = Inl Panic_overflow"
    by (simp add: checked_add_def)
  ultimately show ?thesis by (simp add: getPublicDatasetPage_def)
qed

lemma page_in_range:
  assumes st: "unat start < length (listed_datasets s)"
    and fit: "unat start + unat limit < 2 ^ 256"
  shows "getPublicDatasetPage s start limit =
     Inr (take (unat limit) (drop (unat start) (listed_datasets s)),
          word_of_nat (min (unat start + unat limit) (length (listed_datasets s))))"
proof -
  let ?L = "listed_datasets s"
  let ?tot = "count_listed s 0 0"
  let ?stop = "if ?tot < start + limit then ?tot else start + limit"
  let ?en = "min (unat start + unat limit) (length ?L)"
  have tot: "unat ?tot = length ?L" by (rule count_listed_total)
  from st have gt: "\<not> ?tot \<le> start" by (simp add: word_le_nat_alt tot)
  from fit have add: "checked_add start limit = Inr (start + limit)"
    by (simp add: checked_add_def)
  from fit have sum: "unat (start + limit) = unat start + unat limit"
    by (simp add: unat_word_ariths)
  have en: "unat ?stop = ?en"
    by (simp add: word_less_nat_alt tot sum min_def)
  have "word_of_nat (unat w) = w" for w :: uint256 by simp
  then have "word_of_nat (unat ?stop) = ?stop" .
  then have stop: "?stop = word_of_nat ?en" unfolding en by (rule sym)
  have le: "unat start \<le> ?en" using st by simp
  then have "start \<le> ?stop" unfolding word_le_nat_alt en .
  then have len: "unat (?stop - start) = ?en - unat start"
    by (simp add: unat_sub en)
  let ?p = "replicate (unat (?stop - start)) empty_dataset"
  have "fill_page s start ?stop 0 ?p 0 0 =
     Inr (filled ?p 0 (collected (unat start) ?en 0 (listed_from s 0)))"
    using fill_page_collects [where cursor = 0 and i = 0 and idx = 0 and start = start
        and p = "?p" and stop = "?stop" and s = s] le
    by (simp add: len en)
  also have "collected (unat start) ?en 0 (listed_from s 0) =
      take (?en - unat start) (drop (unat start) ?L)"
    by (simp add: collected_def listed_from_0)
  also have "filled ?p 0 (take (?en - unat start) (drop (unat start) ?L)) =
      take (?en - unat start) (drop (unat start) ?L)"
  proof -
    have "length (take (?en - unat start) (drop (unat start) ?L)) = ?en - unat start"
      by simp
    then show ?thesis by (simp add: filled_def len del: length_take)
  qed
  also have "take (?en - unat start) (drop (unat start) ?L) = take (unat limit) (drop (unat start) ?L)"
    by (simp add: min_def)
  finally have "fill_page s start ?stop 0 ?p 0 0 = Inr (take (unat limit) (drop (unat start) ?L))" .
  with gt add show ?thesis
    unfolding getPublicDatasetPage_def Let_def stop [symmetric] by simp
qed

lemma page_sum_fits:
  assumes "unat start < length (listed_datasets s)"
    and "length (listed_datasets s) \<le> 2 ^ 255"
    and "start = 0 \<or> unat N \<le> unat start"
  shows "unat start + unat (N :: uint256) < 2 ^ 256"
proof -
  have "unat N < 2 ^ 256" using unsigned_less [of N, where 'a = nat] by simp
  moreover have "(2::nat) ^ 255 + 2 ^ 255 = 2 ^ 256" by simp
  ultimately show ?thesis using assms by (cases "start = 0") auto
qed

lemma s_three_eq:
  "s_three = \<lparr>cidExists = (\<lambda>_. False)(''P'' := True, ''Q'' := True, ''R'' := True),
     datasets = (\<lambda>_. empty_dataset)
       (0 := \<lparr>datasetCID = ''P'', analysisCID = [], uploader = 2,
          isPublic = True, isPrivate = False, timestamp = 10, views = 0, downloads = 0,
          isPaid = False, priceInFIL = 0, earnings = 0\<rparr>,
        1 := \<lparr>datasetCID = ''Q'', analysisCID = [], uploader = 2,
          isPublic = False, isPrivate = True, timestamp = 20, views = 0, downloads = 0,
          isPaid = False, priceInFIL = 0, earnings = 0\<rparr>,
        2 := \<lparr>datasetCID = ''R'', analysisCID = [], uploader = 5,
          isPublic = True, isPrivate = False, timestamp = 30, views = 0, downloads = 0,
          isPaid = True, priceInFIL = 7, earnings = 0\<rparr>),
     userUploads = (\<lambda>_. [])(2 := [0, 1], 5 := [2]), hasAccess = (\<lambda>_ _. False),
     publisherEarnings = (\<lambda>_. 0), totalPlatformEarnings = 0,
     paymentTokens = (\<lambda>_. empty_token),
     acceptedTokenByIndex = (\<lambda>_. 0), acceptedTokenCount = 0, datasetCount = 3,
     owner = 1, status = NOT_ENTERED\<rparr>"
  by (simp add: s_three_def three_txs_def constructor_def uploadDataset_def checked_add_def
        checked_inc_def transact_def run_def)

lemma listed_market: "listed_datasets s_market = [datasets s_market 0]"
  by (simp add: listed_datasets_def all_datasets_def ids1 listed_def s_market_eq)

lemma ids3: "datasetCount s = 3 \<Longrightarrow> ids s = [0, 1, 2]"
  by (simp add: ids_def upt_rec)

lemma listed_three: "listed_datasets s_three = [datasets s_three 0, datasets s_three 2]"
  by (simp add: listed_datasets_def all_datasets_def ids3 listed_def s_three_eq)

text \<open>
  Claim C3, as the claim states it, fails: past the end the query returns the cursor 0,
  which is also the cursor of the first page. In the example market, with one listed
  dataset, the call at cursor 0 returns that dataset and the call at cursor 1 returns
  the empty page with \<^verbatim>\<open>nextStart = 0\<close>.
\<close>

theorem sentinel_is_first_cursor:
  "getPublicDatasetPage s_market 0 10 = Inr ([datasets s_market 0], 1) \<and>
   getPublicDatasetPage s_market 1 10 = Inr ([], 0)"
  using page_in_range [of 0 s_market 10] page_exhausted [of s_market 1 10]
  by (simp add: listed_market)

text \<open>
  Claim C3, amended. With limit 0 and a start below the number of listed datasets, the
  query returns the empty page and \<^verbatim>\<open>nextStart = start\<close>; with a start at or past that
  number it returns, for every limit, the empty page and \<^verbatim>\<open>nextStart = 0\<close>.
\<close>

theorem page_edge_cases:
  "(unat start < length (listed_datasets s) \<longrightarrow>
      getPublicDatasetPage s start 0 = Inr ([], start)) \<and>
   (length (listed_datasets s) \<le> unat start \<longrightarrow>
      getPublicDatasetPage s start limit = Inr ([], 0))"
proof (intro conjI impI)
  assume a: "unat start < length (listed_datasets s)"
  then have "min (unat start) (length (listed_datasets s)) = unat start" by simp
  with page_in_range [OF a, of 0] unsigned_less [of start, where 'a = nat]
  show "getPublicDatasetPage s start 0 = Inr ([], start)"
    by simp
next
  assume "length (listed_datasets s) \<le> unat start"
  then show "getPublicDatasetPage s start limit = Inr ([], 0)" by (rule page_exhausted)
qed

theorem page_edge_cases_witness:
  "length (listed_datasets s_three) = 2 \<and>
   getPublicDatasetPage s_three 1 0 = Inr ([], 1) \<and>
   getPublicDatasetPage s_three 2 5 = Inr ([], 0)"
  using page_edge_cases [where s = s_three and start = 1]
    page_edge_cases [where s = s_three and start = 2 and limit = 5]
  by (simp add: listed_three)

text \<open>
  Claim C8. For \<open>N > 0\<close>, the query at cursor 0 returns exactly the first \<open>N\<close> listed
  datasets in ascending id order, or all of them when there are fewer. And when a call at
  a cursor \<open>start\<close> below the number of listed datasets has returned the page \<open>p\<close> and the
  cursor \<open>next\<close>, then \<open>p\<close> is the \<open>N\<close> listed datasets from position \<open>start\<close> on, \<open>next\<close> is
  the position right after them, and the call at \<open>next\<close> returns the \<open>N\<close> listed datasets
  that follow \<open>p\<close> immediately: no overlap and no gap. A call below the end computes
  \<open>start + limit\<close> in checked 256-bit arithmetic (\<open>page_overflow\<close>), so the second call is
  taken where \<open>next\<close> is the end or \<open>next + N\<close> fits; paging from cursor 0 that is always
  so unless more than \<open>2 ^ 255\<close> datasets are listed (\<open>page_sum_fits\<close>).
\<close>

theorem pages_tile:
  assumes "0 < N"
  shows "getPublicDatasetPage s 0 N =
           Inr (take (unat N) (listed_datasets s),
                word_of_nat (min (unat N) (length (listed_datasets s)))) \<and>
         (unat start < length (listed_datasets s) \<and>
          getPublicDatasetPage s start N = Inr (p, next) \<and>
          (length (listed_datasets s) \<le> unat next \<or> unat next + unat N < 2 ^ 256) \<longrightarrow>
            p = take (unat N) (drop (unat start) (listed_datasets s)) \<and>
            unat next = unat start + length p \<and>
            (\<exists>next'. getPublicDatasetPage s next N =
               Inr (take (unat N) (drop (unat start + length p) (listed_datasets s)), next')))"
proof (rule conjI)
  let ?L = "listed_datasets s"
  show "getPublicDatasetPage s 0 N = Inr (take (unat N) ?L, word_of_nat (min (unat N) (length ?L)))"
  proof (cases "?L = []")
    case True
    then show ?thesis using page_exhausted [of s 0 N] by simp
  next
    case False
    then show ?thesis
      using page_in_range [of 0 s N] unsigned_less [of N, where 'a = nat] by simp
  qed
next
  let ?L = "listed_datasets s"
  show "unat start < length ?L \<and> getPublicDatasetPage s start N = Inr (p, next) \<and>
          (length ?L \<le> unat next \<or> unat next + unat N < 2 ^ 256) \<longrightarrow>
            p = take (unat N) (drop (unat start) ?L) \<and>
            unat next = unat start + length p \<and>
            (\<exists>next'. getPublicDatasetPage s next N =
               Inr (take (unat N) (drop (unat start + length p) ?L), next'))"
  proof (rule impI)
  assume a: "unat start < length ?L \<and> getPublicDatasetPage s start N = Inr (p, next) \<and>
    (length ?L \<le> unat next \<or> unat next + unat N < 2 ^ 256)"
  then have st: "unat start < length ?L" and r: "getPublicDatasetPage s start N = Inr (p, next)"
    and fit': "length ?L \<le> unat next \<or> unat next + unat N < 2 ^ 256" by simp_all
  have fit: "unat start + unat N < 2 ^ 256"
  proof (rule ccontr)
    assume "\<not> unat start + unat N < 2 ^ 256"
    then have "getPublicDatasetPage s start N = Inl Panic_overflow"
      using st by (intro page_overflow) simp_all
    with r show False by simp
  qed
  from page_in_range [OF st fit] r
  have p: "p = take (unat N) (drop (unat start) ?L)"
    and n: "next = word_of_nat (min (unat start + unat N) (length ?L))" by simp_all
  have "min (unat start + unat N) (length ?L) \<le> unat start + unat N" by simp
  also have "\<dots> = unat (start + N)" using fit by (simp add: unat_word_ariths)
  finally have un: "unat next = min (unat start + unat N) (length ?L)"
    unfolding n by (rule le_unat_uoi)
  have "length p = min (unat N) (length ?L - unat start)" by (simp add: p)
  with un st have len: "unat next = unat start + length p" by arith
  have "\<exists>next'. getPublicDatasetPage s next N = Inr (take (unat N) (drop (unat next) ?L), next')"
  proof (cases "unat next < length ?L")
    case True
    with fit' have "unat next + unat N < 2 ^ 256" by simp
    from page_in_range [OF True this] show ?thesis by blast
  next
    case False
    then have "getPublicDatasetPage s next N = Inr ([], 0)" by (intro page_exhausted) simp
    with False show ?thesis by simp
  qed
  with p len show "p = take (unat N) (drop (unat start) ?L) \<and> unat next = unat start + length p \<and>
    (\<exists>next'. getPublicDatasetPage s next N =
       Inr (take (unat N) (drop (unat start + length p) ?L), next'))" by simp
  qed
qed

theorem pages_tile_witness:
  "getPublicDatasetPage s_three 0 1 = Inr ([datasets s_three 0], 1) \<and>
   getPublicDatasetPage s_three 1 1 = Inr ([datasets s_three 2], 2) \<and>
   listed_datasets s_three = [datasets s_three 0, datasets s_three 2]"
proof -
  have one: "(0::uint256) < 1" by simp
  from pages_tile [OF one, of s_three]
  have first: "getPublicDatasetPage s_three 0 1 = Inr ([datasets s_three 0], 1)"
    by (simp add: listed_three)
  from pages_tile [OF one, of s_three 0 "[datasets s_three 0]" 1] first
  have "\<exists>next'. getPublicDatasetPage s_three 1 1 = Inr ([datasets s_three 2], next')"
    by (simp add: listed_three)
  moreover have "getPublicDatasetPage s_three 1 1 =
      Inr (take 1 (drop 1 (listed_datasets s_three)), 2)"
    using page_in_range [of 1 s_three 1] by (simp add: listed_three)
  ultimately show ?thesis using first by (simp add: listed_three)
qed

subsection \<open>Ids that were never assigned\<close>

lemma s_touched_eq:
  "s_touched = (constructor 1)\<lparr>datasets := (\<lambda>_. empty_dataset)
     (5 := empty_dataset\<lparr>downloads := 1\<rparr>)\<rparr>"
  by (simp add: s_touched_def run_def transact_def incrementDownloads_def canDownload_def
        constructor_def empty_dataset_def checked_inc_def checked_add_def)

text \<open>
  Claim C10, as the claim states it, fails: the record at an id that was never assigned
  need not be all-default. \<^verbatim>\<open>canDownload\<close> passes for every caller on a record that is not
  paid, so \<^verbatim>\<open>incrementDownloads\<close> succeeds on an unassigned id and raises its downloads
  counter: after one such call on a fresh registry, the record at id 5 has downloads 1
  while the dataset count is still 0.
\<close>

theorem unassigned_record_touched:
  "datasetCount s_touched \<le> 5 \<and> downloads (datasets s_touched 5) = 1 \<and>
   datasets s_touched 5 \<noteq> empty_dataset"
  by (simp add: s_touched_eq constructor_def empty_dataset_def)

text \<open>
  Claim C10, amended. In every state reached from deployment, the record at an id at or
  above the dataset count is default in every field other than its two counters (zero
  uploader, not public, not private, not paid, price and earnings 0, empty CIDs). So
  \<^verbatim>\<open>getDataset\<close> and \<^verbatim>\<open>incrementViews\<close> on it revert with \<^verbatim>\<open>"No view"\<close> for every caller
  other than the zero address, \<^verbatim>\<open>purchaseDataset\<close> reverts with \<^verbatim>\<open>"Not public"\<close> for every
  caller and token, and these calls leave the storage as it was; there is no error of
  its own for an id that does not exist. \<^verbatim>\<open>canDownload\<close> passes on it for every caller,
  and \<^verbatim>\<open>incrementDownloads\<close> raises its downloads counter by one, or reverts with the
  arithmetic panic when the counter is at \<open>2 ^ 48 - 1\<close>.
\<close>

theorem unassigned_ids:
  assumes "s = run (constructor deployer) txs" and "datasetCount s \<le> did"
  shows "static (datasets s did) = empty_dataset \<and>
         (sender \<noteq> 0 \<longrightarrow>
            getDataset s sender did = Inl (Require ''No view'') \<and>
            incrementViews s sender did = Inl (Require ''No view'') \<and>
            transact s (now, sender, IncrementViews did) = s) \<and>
         purchaseDataset now s sender did token beh = Inl (Require ''Not public'') \<and>
         transact s (now, sender, PurchaseDataset did token beh) = s \<and>
         canDownload s sender did \<and>
         incrementDownloads s sender did =
           (if downloads (datasets s did) = - 1 then Inl Panic_overflow
            else Inr (s\<lparr>datasets := (datasets s)(did :=
                   (datasets s did)\<lparr>downloads := downloads (datasets s did) + 1\<rparr>)\<rparr>))"
proof -
  have c: "consistent s" unfolding assms(1) by (rule run_consistent [OF constructor_consistent])
  with assms(2) have blank: "static (datasets s did) = empty_dataset"
    by (simp add: consistent_def)
  note f = static_emptyD [OF blank]
  from c have ne: "status s = NOT_ENTERED" by (simp add: consistent_def)
  have v: "sender \<noteq> 0 \<Longrightarrow> \<not> canView s sender did"
    using f by (auto simp: canView_def)
  have p: "purchaseDataset now s sender did token beh = Inl (Require ''Not public'')"
    using f ne by (cases beh) (simp add: purchase_requires_def)
  have d: "canDownload s sender did" using f by (simp add: canDownload_def)
  then have i: "incrementDownloads s sender did =
           (if downloads (datasets s did) = - 1 then Inl Panic_overflow
            else Inr (s\<lparr>datasets := (datasets s)(did :=
                   (datasets s did)\<lparr>downloads := downloads (datasets s did) + 1\<rparr>)\<rparr>))"
    by (simp add: incrementDownloads_def checked_inc_eq)
  from blank v p d i show ?thesis
    by (simp add: getDataset_def incrementViews_def transact_def del: purchaseDataset.simps)
qed

theorem unassigned_ids_witness:
  "s_touched = run (constructor 1) [(0, 9, IncrementDownloads 5)] \<and>
   datasetCount s_touched \<le> 5 \<and>
   static (datasets s_touched 5) = empty_dataset \<and>
   getDataset s_touched 9 5 = Inl (Require ''No view'') \<and>
   incrementViews s_touched 9 5 = Inl (Require ''No view'') \<and>
   purchaseDataset 1 s_touched 9 5 7 (Token [] (Returns True)) = Inl (Require ''Not public'') \<and>
   canDownload s_touched 9 5 \<and>
   incrementDownloads s_touched 9 5 =
     Inr (s_touched\<lparr>datasets := (datasets s_touched)
            (5 := (datasets s_touched 5)\<lparr>downloads := 2\<rparr>)\<rparr>)"
proof -
  have le: "datasetCount s_touched \<le> 5" by (simp add: s_touched_eq constructor_def)
  have dl: "downloads (datasets s_touched 5) = 1" by (simp add: s_touched_eq)
  from unassigned_ids [OF s_touched_def le, of 9 1 7 "Token [] (Returns True)"] le dl
  show ?thesis by (simp add: s_touched_def)
qed

end
